theory Spec2Isabelle
  imports Main "HOL-Library.Sublist" "HOL-Library.AList" "HOL-Library.Multiset"
begin

section \<open>Go library functions used by \<open>pkg/secrets/secrets.go\<close>\<close>

text \<open>
  Go strings are byte sequences; they are modelled as \<open>string\<close> (a list of 8-bit
  characters). The functions below are the ones of Go's standard library that
  \<open>secrets.go\<close> calls, written out on lists.
\<close>

text \<open>\<open>strings.HasPrefix(s, p)\<close> and \<open>strings.TrimPrefix(s, p)\<close>.\<close>

definition HasPrefix :: "string \<Rightarrow> string \<Rightarrow> bool" where
  "HasPrefix s p = (take (length p) s = p)"

definition TrimPrefix :: "string \<Rightarrow> string \<Rightarrow> string" where
  "TrimPrefix s p = (if HasPrefix s p then drop (length p) s else s)"

text \<open>
  \<open>strings.ToLower\<close> and \<open>strings.ToUpper\<close> on the ASCII letters; every other byte
  is left as it is (Go also maps the letters outside ASCII; the names of environment
  variables are ASCII).
\<close>

definition lower_letters :: string where
  "lower_letters = ''abcdefghijklmnopqrstuvwxyz''"

definition upper_letters :: string where
  "upper_letters = ''ABCDEFGHIJKLMNOPQRSTUVWXYZ''"

definition ToLower :: "string \<Rightarrow> string" where
  "ToLower s = map (\<lambda>c. case map_of (zip upper_letters lower_letters) c of
                           Some l \<Rightarrow> l | None \<Rightarrow> c) s"

definition ToUpper :: "string \<Rightarrow> string" where
  "ToUpper s = map (\<lambda>c. case map_of (zip lower_letters upper_letters) c of
                           Some u \<Rightarrow> u | None \<Rightarrow> c) s"

text \<open>
  \<open>strings.Split(env, "=")[0]\<close>: the part of an environment entry before its first
  \<open>=\<close> (the whole entry when it has none).
\<close>

definition Split_first :: "string \<Rightarrow> string" where
  "Split_first env = takeWhile (\<lambda>c. c \<noteq> CHR ''='') env"

text \<open>
  The process environment is the list of its \<open>KEY=VALUE\<close> entries, as
  \<open>os.Environ()\<close> returns it. \<open>os.Getenv(key)\<close> is the value of the first entry
  with that key, and the empty string when the key is empty or not set.
\<close>

fun Getenv :: "string list \<Rightarrow> string \<Rightarrow> string" where
  "Getenv [] key = ''''"
| "Getenv (s # envs) key =
     (if key \<noteq> '''' \<and> CHR ''='' \<in> set s \<and> Split_first s = key
      then tl (dropWhile (\<lambda>c. c \<noteq> CHR ''='') s)
      else Getenv envs key)"

text \<open>
  \<open>path.Split(p)\<close> splits right after the last slash: the second component is the
  final path segment, the first one everything before it.
\<close>

definition path_Split :: "string \<Rightarrow> string \<times> string" where
  "path_Split p =
     (let file = rev (takeWhile (\<lambda>c. c \<noteq> CHR ''/'') (rev p))
      in (take (length p - length file) p, file))"

text \<open>
  \<open>path.Join(a, b)\<close> joins the non-empty elements with a slash and returns the
  \<open>path.Clean\<close> of the result. \<open>Clean\<close> works on the slash-separated elements: empty
  elements and \<open>.\<close> are dropped, \<open>..\<close> removes the element before it (and is kept
  in front of a path that is not rooted when there is nothing left to remove), and the
  empty result is \<open>.\<close>.
\<close>

fun split_slash :: "string \<Rightarrow> string \<Rightarrow> string list" where
  "split_slash acc [] = [rev acc]"
| "split_slash acc (c # cs) =
     (if c = CHR ''/'' then rev acc # split_slash [] cs else split_slash (c # acc) cs)"

fun clean_elems :: "bool \<Rightarrow> string list \<Rightarrow> string list \<Rightarrow> string list" where
  "clean_elems rooted out [] = rev out"
| "clean_elems rooted out (e # es) =
     (if e = '''' \<or> e = ''.'' then clean_elems rooted out es
      else if e = ''..'' then
        (case out of
           [] \<Rightarrow> clean_elems rooted (if rooted then [] else [''..'']) es
         | e' # below \<Rightarrow>
             if e' = ''..'' then clean_elems rooted (''..'' # out) es
             else clean_elems rooted below es)
      else clean_elems rooted (e # out) es)"

fun join_slash :: "string list \<Rightarrow> string" where
  "join_slash [] = ''''"
| "join_slash [e] = e"
| "join_slash (e # es) = e @ ''/'' @ join_slash es"

definition path_Clean :: "string \<Rightarrow> string" where
  "path_Clean p =
     (if p = '''' then ''.''
      else let rooted = (hd p = CHR ''/'');
               body = join_slash (clean_elems rooted [] (split_slash [] p))
           in if rooted then CHR ''/'' # body
              else if body = '''' then ''.'' else body)"

definition path_Join :: "string \<Rightarrow> string \<Rightarrow> string" where
  "path_Join a b =
     (if a = '''' \<and> b = '''' then ''''
      else if a = '''' then path_Clean b
      else if b = '''' then path_Clean a
      else path_Clean (a @ ''/'' @ b))"

section \<open>Data model\<close>

text \<open>The constants of \<open>secrets.go\<close>.\<close>

definition defaultKeyName :: string where
  "defaultKeyName = ''value''"

definition secretDestinationPrefix :: string where
  "secretDestinationPrefix = ''DAYTONA_SECRET_DESTINATION_''"

definition secretStoragePathPrefix :: string where
  "secretStoragePathPrefix = ''VAULT_SECRET_''"

definition secretsStoragePathPrefix :: string where
  "secretsStoragePathPrefix = ''VAULT_SECRETS_''"

text \<open>
  A value of Go's \<open>interface{}\<close> as the store's client decodes it: \<open>nil\<close>, a
  string, a boolean, a number (\<open>json.Number\<close>), a sequence (\<open>[]interface{}\<close>) or a
  nested mapping. A Go \<open>map\<close> is an association list with distinct keys; the order
  of its entries is the order in which a \<open>range\<close> loop visits them, which Go leaves
  unspecified.
\<close>

datatype iface =
    INil
  | IString string
  | IBool bool
  | INumber string
  | ISlice "iface list"
  | IMap "(string \<times> iface) list"

type_synonym go_error = string

text \<open>\<open>api.Secret\<close>: only its \<open>Data\<close> field is read.\<close>

record api_Secret =
  Data :: "(string \<times> iface) list"

text \<open>
  \<open>SecretResult\<close>, the result of one read as the parallel reader hands it over
  (the type is declared beside the reader; \<open>secrets.go\<close> reads these three fields).
\<close>

record SecretResult =
  KeyPath :: string
  Secret :: "api_Secret option"
  Err :: "go_error option"

record SecretDefinition =
  EnvKey :: string
  SecretID :: string
  SecretApex :: string
  OutputDestination :: string
  secrets :: "(string \<times> string) list"
  plural :: bool
  paths :: "string list"

text \<open>The two fields of \<open>cfg.Config\<close> that decide the output, and the worker count.\<close>

record Config =
  SecretPayloadPath :: string
  SecretEnv :: bool
  Workers :: nat

text \<open>
  The store client: \<open>client.Logical().List(path)\<close> and the read the parallel reader
  performs, each returning Go's pair of a secret (or \<open>nil\<close>) and an error (or
  \<open>nil\<close>).
\<close>

record Client =
  Logical_List :: "string \<Rightarrow> api_Secret option \<times> go_error option"
  Logical_Read :: "string \<Rightarrow> api_Secret option \<times> go_error option"

text \<open>The errors \<open>Walk\<close> builds with \<open>fmt.Errorf\<close>, one constructor per message.\<close>

datatype walk_error =
    ListProblem string go_error
  | NoSecretsFound string
  | UnexpectedFormat "(string \<times> iface) list"
  | NonStringName

text \<open>The errors of \<open>writeJSONSecrets\<close>.\<close>

datatype write_error =
    MarshalFailed go_error
  | WriteFailed string go_error

text \<open>
  How a run ends early: one constructor per \<open>log.Fatal\<close> call of the file, the
  runtime panic of a failed single-value type assertion, and a read of the parallel
  reader that waits with no request outstanding.
\<close>

datatype abort =
    FatalWalk walk_error
  | FatalResultErr go_error
  | FatalAddSecrets go_error
  | FatalRetrieve string go_error
  | FatalNotFound string string
  | FatalPayload write_error
  | PanicTypeAssertion iface
  | Blocked

fun is_fatal :: "abort \<Rightarrow> bool" where
  "is_fatal (PanicTypeAssertion v) = False"
| "is_fatal Blocked = False"
| "is_fatal a = True"

section \<open>Merging one result: \<open>addSecrets\<close>\<close>

text \<open>The single-value type assertion \<open>v.(string)\<close>: it panics on any other value.\<close>

fun assert_string :: "iface \<Rightarrow> abort + string" where
  "assert_string (IString s) = Inr s"
| "assert_string v = Inl (PanicTypeAssertion v)"

text \<open>
  The loop over \<open>secretData\<close>: the attribute named \<open>defaultKeyName\<close> is stored
  under \<open>keyName\<close>, any other attribute \<open>k\<close> under \<open>keyName_k\<close>.
\<close>

fun addSecrets_range ::
  "string \<Rightarrow> (string \<times> string) list \<Rightarrow> (string \<times> iface) list
   \<Rightarrow> abort + (string \<times> string) list" where
  "addSecrets_range keyName m [] = Inr m"
| "addSecrets_range keyName m ((k, v) # kvs) =
     (case assert_string v of
        Inl a \<Rightarrow> Inl a
      | Inr s \<Rightarrow>
          if k = defaultKeyName
          then addSecrets_range keyName (AList.update keyName s m) kvs
          else addSecrets_range keyName (AList.update (keyName @ ''_'' @ k) s m) kvs)"

text \<open>
  \<open>addSecrets\<close> returns the updated definition and the error \<open>lastErr\<close>, which
  nothing ever assigns.
\<close>

definition addSecrets ::
  "SecretDefinition \<Rightarrow> SecretResult \<Rightarrow> abort + (SecretDefinition \<times> go_error option)" where
  "addSecrets sd secretResult =
     (let keyPath = KeyPath secretResult;
          keyName = snd (path_Split keyPath)
      in case Err secretResult of
           Some err \<Rightarrow> Inl (FatalRetrieve keyPath err)
         | None \<Rightarrow>
             (case Secret secretResult of
                None \<Rightarrow> Inl (FatalNotFound keyName keyPath)
              | Some secret \<Rightarrow>
                  (case addSecrets_range keyName (secrets sd) (Data secret) of
                     Inl a \<Rightarrow> Inl a
                   | Inr m \<Rightarrow> Inr (sd\<lparr>secrets := m\<rparr>, None))))"

section \<open>Expanding a plural definition: \<open>Walk\<close>\<close>

text \<open>Events a run leaves behind, in the order they happen.\<close>

datatype logline =
    StartingSecretFetch
  | NoOutputMethod string
  | StartingIteration string
  | WroteSecretTo string
  | WroteSecrets nat string
  | SetEnvVar string

datatype event =
    Logged logline
  | ListCall string
  | Requested string
  | Delivered string
  | Setenv string string
  | FileWritten string string

text \<open>The loop over the listed keys: every key must be a string.\<close>

fun Walk_keys :: "string \<Rightarrow> string list \<Rightarrow> iface list \<Rightarrow> walk_error + string list" where
  "Walk_keys apex ps [] = Inr ps"
| "Walk_keys apex ps (IString key # ks) = Walk_keys apex (ps @ [path_Join apex key]) ks"
| "Walk_keys apex ps (k # ks) = Inl NonStringName"

text \<open>The type assertion \<open>list.Data["keys"].([]interface{})\<close> with its \<open>ok\<close> flag.\<close>

fun assert_slice :: "iface option \<Rightarrow> iface list option" where
  "assert_slice (Some (ISlice ks)) = Some ks"
| "assert_slice v = None"

text \<open>
  \<open>Walk\<close> returns the events it caused (the list call and its log line) and either an
  error or the definition with its \<open>paths\<close> set.
\<close>

definition Walk :: "Client \<Rightarrow> SecretDefinition \<Rightarrow> event list \<times> (walk_error + SecretDefinition)" where
  "Walk client sd =
     (let apex = SecretApex sd in
      case Logical_List client apex of
        (lst, Some err) \<Rightarrow> ([ListCall apex], Inl (ListProblem apex err))
      | (None, None) \<Rightarrow> ([ListCall apex], Inl (NoSecretsFound apex))
      | (Some lst, None) \<Rightarrow>
          if length (Data lst) = 0 then ([ListCall apex], Inl (NoSecretsFound apex))
          else
            ([ListCall apex, Logged (StartingIteration apex)],
             (case assert_slice (map_of (Data lst) ''keys'') of
                None \<Rightarrow> Inl (UnexpectedFormat (Data lst))
              | Some keys \<Rightarrow>
                  (case Walk_keys apex [] keys of
                     Inl e \<Rightarrow> Inl e
                   | Inr ps \<Rightarrow> Inr (sd\<lparr>paths := ps\<rparr>)))))"

section \<open>The host: what the run does not decide\<close>

text \<open>
  Four things are decided outside \<open>secrets.go\<close>: what \<open>json.Marshal\<close> returns for
  a mapping, whether \<open>ioutil.WriteFile\<close> succeeds on a path, the order in which Go
  ranges over a \<open>map[string]string\<close>, and which outstanding request the parallel
  reader completes next. They are parameters of the model.
\<close>

record Host =
  json_Marshal :: "(string \<times> string) list \<Rightarrow> go_error + string"
  WriteFile_error :: "string \<Rightarrow> go_error option"
  range_order :: "(string \<times> string) list \<Rightarrow> (string \<times> string) list"
  next_done :: "string list \<Rightarrow> nat"

text \<open>
  The state of a run: the definitions collected so far, the paths handed to the
  parallel reader whose results have not been read yet, the events so far, and the
  files written.
\<close>

record state =
  defs :: "SecretDefinition list"
  outstanding :: "string list"
  trace :: "event list"
  files :: "string \<rightharpoonup> string"

definition emit :: "event list \<Rightarrow> state \<Rightarrow> state" where
  "emit evs st = st\<lparr>trace := trace st @ evs\<rparr>"

section \<open>The parallel reader, at its interface\<close>

text \<open>
  Modelled from the spec: the parallel reader (\<open>NewParallelReader\<close>,
  \<open>AsyncRequestKeyPath\<close>, \<open>ReadSecretResult\<close>) lives in another file of the package.
  The spec's contract: \<open>submit(path)\<close> enqueues a read request without blocking;
  \<open>next()\<close> blocks until a result is available and returns the next completed
  result, with no ordering guarantee between different paths; each result wraps the
  outcome of the store client's read of its path.
\<close>

definition AsyncRequestKeyPath :: "string \<Rightarrow> state \<Rightarrow> state" where
  "AsyncRequestKeyPath path st =
     st\<lparr>outstanding := outstanding st @ [path], trace := trace st @ [Requested path]\<rparr>"

definition ReadSecretResult :: "Host \<Rightarrow> Client \<Rightarrow> state \<Rightarrow> (SecretResult \<times> state) option" where
  "ReadSecretResult h client st =
     (case outstanding st of
        [] \<Rightarrow> None
      | p # ps \<Rightarrow>
          let i = next_done h (outstanding st) mod length (outstanding st);
              path = outstanding st ! i;
              (secret, err) = Logical_Read client path
          in Some (\<lparr>KeyPath = path, Secret = secret, Err = err\<rparr>,
                   st\<lparr>outstanding := take i (outstanding st) @ drop (Suc i) (outstanding st),
                      trace := trace st @ [Delivered path]\<rparr>))"

section \<open>\<open>SecretFetcher\<close>: discovering and fetching\<close>

text \<open>
  Lines 70 to 92: the definition built for one environment entry, or \<open>None\<close> where
  the loop body leaves with \<open>continue\<close>.
\<close>

definition define_secret :: "string list \<Rightarrow> string \<Rightarrow> SecretDefinition option" where
  "define_secret envs env =
     (let envKey = Split_first env;
          apex = Getenv envs envKey
      in if apex = '''' then None
         else
           let sd = \<lparr>EnvKey = envKey, SecretID = '''', SecretApex = apex,
                     OutputDestination = '''', secrets = [], plural = False, paths = []\<rparr>
           in if HasPrefix envKey secretStoragePathPrefix
              then Some (sd\<lparr>SecretID := TrimPrefix envKey secretStoragePathPrefix,
                            paths := paths sd @ [apex]\<rparr>)
              else if HasPrefix envKey secretsStoragePathPrefix
              then Some (sd\<lparr>SecretID := TrimPrefix envKey secretsStoragePathPrefix,
                            plural := True\<rparr>)
              else None)"

text \<open>Lines 94 to 103: the destination variable, as given, lower-cased, upper-cased.\<close>

definition resolve_destination :: "string list \<Rightarrow> SecretDefinition \<Rightarrow> SecretDefinition" where
  "resolve_destination envs sd =
     (let dest = Getenv envs (secretDestinationPrefix @ SecretID sd) in
      if dest \<noteq> '''' then sd\<lparr>OutputDestination := dest\<rparr>
      else
        let dest = Getenv envs (secretDestinationPrefix @ ToLower (SecretID sd)) in
        if dest \<noteq> '''' then sd\<lparr>OutputDestination := dest\<rparr>
        else
          let dest = Getenv envs (secretDestinationPrefix @ ToUpper (SecretID sd)) in
          if dest \<noteq> '''' then sd\<lparr>OutputDestination := dest\<rparr>
          else sd)"

text \<open>Lines 105 to 110: no output method is configured for the definition.\<close>

definition no_output_method :: "Config \<Rightarrow> SecretDefinition \<Rightarrow> bool" where
  "no_output_method config sd =
     (SecretPayloadPath config = '''' \<and> \<not> SecretEnv config \<and> OutputDestination sd = '''')"

text \<open>Lines 112 to 117: a plural definition is walked; an error is fatal.\<close>

definition expand ::
  "Client \<Rightarrow> SecretDefinition \<Rightarrow> state \<Rightarrow> (abort \<times> state) + (SecretDefinition \<times> state)" where
  "expand client sd st =
     (if plural sd then
        (case Walk client sd of
           (evs, Inl err) \<Rightarrow> Inl (FatalWalk err, emit evs st)
         | (evs, Inr sd') \<Rightarrow> Inr (sd', emit evs st))
      else Inr (sd, st))"

text \<open>Lines 119 to 121: every path of the definition is handed to the reader.\<close>

fun request_paths :: "string list \<Rightarrow> state \<Rightarrow> state" where
  "request_paths [] st = st"
| "request_paths (path # ps) st = request_paths ps (AsyncRequestKeyPath path st)"

text \<open>Lines 124 to 131: one result read from the reader is checked and merged.\<close>

definition merge_result :: "SecretDefinition \<Rightarrow> SecretResult \<Rightarrow> abort + SecretDefinition" where
  "merge_result sd secretResult =
     (case Err secretResult of
        Some err \<Rightarrow> Inl (FatalResultErr err)
      | None \<Rightarrow>
          (case addSecrets sd secretResult of
             Inl a \<Rightarrow> Inl a
           | Inr (sd', Some err) \<Rightarrow> Inl (FatalAddSecrets err)
           | Inr (sd', None) \<Rightarrow> Inr sd'))"

text \<open>Lines 122 to 132: as many results are read as the definition has paths.\<close>

fun drain_results ::
  "Host \<Rightarrow> Client \<Rightarrow> nat \<Rightarrow> SecretDefinition \<Rightarrow> state
   \<Rightarrow> (abort \<times> state) + (SecretDefinition \<times> state)" where
  "drain_results h client 0 sd st = Inr (sd, st)"
| "drain_results h client (Suc n) sd st =
     (case ReadSecretResult h client st of
        None \<Rightarrow> Inl (Blocked, st)
      | Some (secretResult, st') \<Rightarrow>
          (case merge_result sd secretResult of
             Inl a \<Rightarrow> Inl (a, st')
           | Inr sd' \<Rightarrow> drain_results h client n sd' st'))"

text \<open>The body of the loop over the environment, lines 66 to 135.\<close>

definition SecretFetcher_env ::
  "Host \<Rightarrow> Client \<Rightarrow> Config \<Rightarrow> string list \<Rightarrow> state \<Rightarrow> string \<Rightarrow> (abort \<times> state) + state" where
  "SecretFetcher_env h client config envs st env =
     (case define_secret envs env of
        None \<Rightarrow> Inr st
      | Some sd0 \<Rightarrow>
          let sd = resolve_destination envs sd0 in
          if no_output_method config sd
          then Inr (emit [Logged (NoOutputMethod (EnvKey sd))] st)
          else
            (case expand client sd st of
               Inl stop \<Rightarrow> Inl stop
             | Inr (sd1, st1) \<Rightarrow>
                 (case drain_results h client (length (paths sd1)) sd1
                         (request_paths (paths sd1) st1) of
                    Inl stop \<Rightarrow> Inl stop
                  | Inr (sd2, st2) \<Rightarrow> Inr (st2\<lparr>defs := defs st2 @ [sd2]\<rparr>))))"

fun SecretFetcher_envs ::
  "Host \<Rightarrow> Client \<Rightarrow> Config \<Rightarrow> string list \<Rightarrow> state \<Rightarrow> string list \<Rightarrow> (abort \<times> state) + state" where
  "SecretFetcher_envs h client config envs st [] = Inr st"
| "SecretFetcher_envs h client config envs st (env # rest) =
     (case SecretFetcher_env h client config envs st env of
        Inl stop \<Rightarrow> Inl stop
      | Inr st' \<Rightarrow> SecretFetcher_envs h client config envs st' rest)"

section \<open>\<open>SecretFetcher\<close>: writing the output\<close>

text \<open>
  \<open>os.Setenv\<close> refuses an empty key, a key with \<open>=\<close> or a NUL byte, and a value
  with a NUL byte.
\<close>

definition Setenv_error :: "string \<Rightarrow> string \<Rightarrow> go_error option" where
  "Setenv_error k v =
     (if k = '''' \<or> CHR ''='' \<in> set k \<or> CHR 0x00 \<in> set k \<or> CHR 0x00 \<in> set v
      then Some ''invalid argument'' else None)"

fun setEnvSecrets_range :: "(string \<times> string) list \<Rightarrow> state \<Rightarrow> state \<times> go_error option" where
  "setEnvSecrets_range [] st = (st, None)"
| "setEnvSecrets_range ((k, v) # kvs) st =
     (case Setenv_error k v of
        Some err \<Rightarrow> (st, Some (''Error from os.Setenv: '' @ err))
      | None \<Rightarrow> setEnvSecrets_range kvs (emit [Setenv k v, Logged (SetEnvVar k)] st))"

definition setEnvSecrets :: "Host \<Rightarrow> (string \<times> string) list \<Rightarrow> state \<Rightarrow> state \<times> go_error option" where
  "setEnvSecrets h m st = setEnvSecrets_range (range_order h m) st"

text \<open>\<open>ioutil.WriteFile\<close>: on success the file holds exactly the bytes written.\<close>

definition WriteFile :: "Host \<Rightarrow> string \<Rightarrow> string \<Rightarrow> state \<Rightarrow> go_error + state" where
  "WriteFile h filepath bytes st =
     (case WriteFile_error h filepath of
        Some err \<Rightarrow> Inl err
      | None \<Rightarrow> Inr (st\<lparr>files := (files st)(filepath \<mapsto> bytes),
                         trace := trace st @ [FileWritten filepath bytes]\<rparr>))"

definition writeJSONSecrets ::
  "Host \<Rightarrow> (string \<times> string) list \<Rightarrow> string \<Rightarrow> state \<Rightarrow> write_error + state" where
  "writeJSONSecrets h m filepath st =
     (case json_Marshal h m of
        Inl err \<Rightarrow> Inl (MarshalFailed err)
      | Inr payloadJSON \<Rightarrow>
          (case WriteFile h filepath payloadJSON st of
             Inl err \<Rightarrow> Inl (WriteFailed filepath err)
           | Inr st' \<Rightarrow> Inr (emit [Logged (WroteSecrets (length m) filepath)] st')))"

fun writeSecrets_range ::
  "Host \<Rightarrow> string \<Rightarrow> (string \<times> string) list \<Rightarrow> state \<Rightarrow> state \<times> write_error option" where
  "writeSecrets_range h dest [] st = (st, None)"
| "writeSecrets_range h dest ((k, secretValue) # kvs) st =
     (case WriteFile h dest secretValue st of
        Inl err \<Rightarrow> (st, Some (WriteFailed dest err))
      | Inr st' \<Rightarrow> writeSecrets_range h dest kvs (emit [Logged (WroteSecretTo dest)] st'))"

definition writeSecretsToDestination ::
  "Host \<Rightarrow> SecretDefinition \<Rightarrow> state \<Rightarrow> state \<times> write_error option" where
  "writeSecretsToDestination h sd st =
     (if plural sd then
        (case writeJSONSecrets h (secrets sd) (OutputDestination sd) st of
           Inl err \<Rightarrow> (st, Some err)
         | Inr st' \<Rightarrow> (st', None))
      else writeSecrets_range h (OutputDestination sd) (range_order h (secrets sd)) st)"

text \<open>
  Lines 138 to 153, for one definition and for the list of them. The errors of
  \<open>setEnvSecrets\<close> and \<open>writeSecretsToDestination\<close> are dropped by the caller; an
  error of the payload file is fatal.
\<close>

definition output_definition ::
  "Host \<Rightarrow> Config \<Rightarrow> state \<Rightarrow> SecretDefinition \<Rightarrow> (abort \<times> state) + state" where
  "output_definition h config st sd =
     (let st1 = (if SecretEnv config then fst (setEnvSecrets h (secrets sd) st) else st);
          st2 = (if OutputDestination sd \<noteq> ''''
                 then fst (writeSecretsToDestination h sd st1) else st1)
      in if SecretPayloadPath config \<noteq> '''' then
           (case writeJSONSecrets h (secrets sd) (SecretPayloadPath config) st2 of
              Inl err \<Rightarrow> Inl (FatalPayload err, st2)
            | Inr st3 \<Rightarrow> Inr st3)
         else Inr st2)"

fun output_definitions ::
  "Host \<Rightarrow> Config \<Rightarrow> state \<Rightarrow> SecretDefinition list \<Rightarrow> (abort \<times> state) + state" where
  "output_definitions h config st [] = Inr st"
| "output_definitions h config st (sd # sds) =
     (case output_definition h config st sd of
        Inl stop \<Rightarrow> Inl stop
      | Inr st' \<Rightarrow> output_definitions h config st' sds)"

text \<open>The whole of \<open>SecretFetcher\<close>, started with the files \<open>fs\<close> on disk.\<close>

definition SecretFetcher ::
  "Host \<Rightarrow> Client \<Rightarrow> Config \<Rightarrow> string list \<Rightarrow> (string \<rightharpoonup> string) \<Rightarrow> (abort \<times> state) + state" where
  "SecretFetcher h client config envs fs =
     (case SecretFetcher_envs h client config envs
             \<lparr>defs = [], outstanding = [], trace = [Logged StartingSecretFetch], files = fs\<rparr>
             envs of
        Inl stop \<Rightarrow> Inl stop
      | Inr st \<Rightarrow> output_definitions h config st (defs st))"


section \<open>Notions of the specification\<close>

text \<open>
  The specification's naming rule for a stored attribute: the attribute named
  \<open>value\<close> goes under the friendly key name itself, any other attribute \<open>k\<close>
  under \<open><friendlyKeyName>_k\<close>.
\<close>

definition friendly_key :: "string \<Rightarrow> string \<Rightarrow> string" where
  "friendly_key keyName k = (if k = ''value'' then keyName else keyName @ ''_'' @ k)"

text \<open>The attribute values that are strings.\<close>

fun is_string :: "iface \<Rightarrow> bool" where
  "is_string (IString s) = True"
| "is_string v = False"



section \<open>Observations on a run\<close>

text \<open>The paths of the results read from the reader, and of the requests made to it.\<close>

fun delivered :: "event list \<Rightarrow> string list" where
  "delivered [] = []"
| "delivered (Delivered p # evs) = p # delivered evs"
| "delivered (ev # evs) = delivered evs"

fun requested :: "event list \<Rightarrow> string list" where
  "requested [] = []"
| "requested (Requested p # evs) = p # requested evs"
| "requested (ev # evs) = requested evs"

text \<open>The events that talk to the store, as opposed to the ones that write output.\<close>

fun store_event :: "event \<Rightarrow> bool" where
  "store_event (ListCall p) = True"
| "store_event (Requested p) = True"
| "store_event (Delivered p) = True"
| "store_event ev = False"

text \<open>
  A read is good when the store returns a secret and no error. A trace is good when
  every result read so far was good; a run stopped at a bad result when it ended with a
  logged fatal message right after reading a result that is not good, all earlier
  results being good.
\<close>

definition good_read :: "Client \<Rightarrow> string \<Rightarrow> bool" where
  "good_read client p = (case Logical_Read client p of (Some s, None) \<Rightarrow> True | other \<Rightarrow> False)"

definition all_good :: "Client \<Rightarrow> event list \<Rightarrow> bool" where
  "all_good client tr = list_all (good_read client) (delivered tr)"

definition stopped_at_bad :: "Client \<Rightarrow> abort \<Rightarrow> event list \<Rightarrow> bool" where
  "stopped_at_bad client a tr =
     (is_fatal a \<and> tr \<noteq> [] \<and> all_good client (butlast tr)
      \<and> (case last tr of Delivered p \<Rightarrow> \<not> good_read client p | other \<Rightarrow> False))"

text \<open>
  Two states are the same up to a log line when they agree on everything but the
  occurrences of that line in the trace.
\<close>

definition same_run :: "logline \<Rightarrow> state \<Rightarrow> state \<Rightarrow> bool" where
  "same_run l st1 st2 =
     (defs st1 = defs st2 \<and> outstanding st1 = outstanding st2 \<and> files st1 = files st2
      \<and> filter (\<lambda>ev. ev \<noteq> Logged l) (trace st1) = filter (\<lambda>ev. ev \<noteq> Logged l) (trace st2))"

text \<open>
  A state is balanced when every path requested so far has been read or is still
  outstanding.
\<close>

definition balanced :: "state \<Rightarrow> bool" where
  "balanced st = (mset (requested (trace st)) = mset (delivered (trace st)) + mset (outstanding st))"

section \<open>Example inputs\<close>

definition db_definition :: SecretDefinition where
  "db_definition = \<lparr>EnvKey = ''VAULT_SECRET_DB'', SecretID = ''DB'', SecretApex = ''secret/app/DB'',
     OutputDestination = '''', secrets = [(''DB'', ''old'')], plural = False, paths = [''secret/app/DB'']\<rparr>"

definition db_result :: SecretResult where
  "db_result = \<lparr>KeyPath = ''secret/app/DB'',
      Secret = Some \<lparr>Data = [(''value'', IString ''v1''), (''user'', IString ''u''), (''pass'', IString ''p'')]\<rparr>,
      Err = None\<rparr>"


definition port_result :: SecretResult where
  "port_result = \<lparr>KeyPath = ''secret/app/DB'',
      Secret = Some \<lparr>Data = [(''value'', IString ''v1''), (''port'', INumber ''5432'')]\<rparr>,
      Err = None\<rparr>"


definition denied_result :: SecretResult where
  "denied_result = \<lparr>KeyPath = ''secret/app/api'', Secret = None, Err = Some ''permission denied''\<rparr>"

definition missing_result :: SecretResult where
  "missing_result = \<lparr>KeyPath = ''secret/app/api'', Secret = None, Err = None\<rparr>"

text \<open>
  A marshaller for the examples: a JSON object with the entries in stored order and no
  escaping. The example host writes every file, ranges over a mapping in stored order
  and completes the oldest outstanding request first.
\<close>

fun plain_json_entries :: "(string \<times> string) list \<Rightarrow> string" where
  "plain_json_entries [] = ''''"
| "plain_json_entries [(k, v)] = ''\"'' @ k @ ''\":\"'' @ v @ ''\"''"
| "plain_json_entries ((k, v) # kvs) = ''\"'' @ k @ ''\":\"'' @ v @ ''\",'' @ plain_json_entries kvs"

definition plain_json :: "(string \<times> string) list \<Rightarrow> string" where
  "plain_json m = ''{'' @ plain_json_entries m @ ''}''"

definition example_host :: Host where
  "example_host = \<lparr>json_Marshal = (\<lambda>m. Inr (plain_json m)), WriteFile_error = (\<lambda>p. None),
     range_order = (\<lambda>m. m), next_done = (\<lambda>ps. 0)\<rparr>"

definition example_store :: Client where
  "example_store = \<lparr>
     Logical_List = (\<lambda>p. if p = ''secret/app/db''
        then (Some \<lparr>Data = [(''keys'', ISlice [IString ''user'', IString ''pass''])]\<rparr>, None)
        else (None, None)),
     Logical_Read = (\<lambda>p.
        if p = ''secret/app/api'' then (Some \<lparr>Data = [(''value'', IString ''abc123'')]\<rparr>, None)
        else if p = ''secret/app/db/user'' then (Some \<lparr>Data = [(''value'', IString ''u1'')]\<rparr>, None)
        else if p = ''secret/app/db/pass'' then (Some \<lparr>Data = [(''value'', IString ''p1'')]\<rparr>, None)
        else (None, None))\<rparr>"

definition no_sinks :: Config where
  "no_sinks = \<lparr>SecretPayloadPath = '''', SecretEnv = False, Workers = 1\<rparr>"


definition denying_store :: Client where
  "denying_store = \<lparr>Logical_List = (\<lambda>p. (None, None)),
     Logical_Read = (\<lambda>p. (None, Some ''permission denied''))\<rparr>"

text \<open>A store whose listings are malformed or list nothing.\<close>

definition odd_store :: Client where
  "odd_store = \<lparr>
     Logical_List = (\<lambda>p.
        if p = ''odd/format'' then (Some \<lparr>Data = [(''keys'', IString ''user'')]\<rparr>, None)
        else if p = ''odd/entry'' then (Some \<lparr>Data = [(''keys'', ISlice [IString ''user'', INumber ''7''])]\<rparr>, None)
        else if p = ''odd/none'' then (Some \<lparr>Data = [(''keys'', ISlice [])]\<rparr>, None)
        else (None, None)),
     Logical_Read = (\<lambda>p. (None, None))\<rparr>"

definition plural_definition :: "string \<Rightarrow> SecretDefinition" where
  "plural_definition apex = \<lparr>EnvKey = ''VAULT_SECRETS_DB'', SecretID = ''DB'', SecretApex = apex,
     OutputDestination = '''', secrets = [], plural = True, paths = []\<rparr>"

definition named :: "string \<Rightarrow> SecretDefinition" where
  "named ident = \<lparr>EnvKey = ''VAULT_SECRET_'' @ ident, SecretID = ident, SecretApex = ''secret/app/x'',
     OutputDestination = '''', secrets = [], plural = False, paths = [''secret/app/x'']\<rparr>"

definition start_state :: state where
  "start_state = \<lparr>defs = [], outstanding = [], trace = [Logged StartingSecretFetch], files = Map.empty\<rparr>"

definition x_definition :: SecretDefinition where
  "x_definition = \<lparr>EnvKey = ''VAULT_SECRET_X'', SecretID = ''X'', SecretApex = ''secret/x'',
     OutputDestination = '''', secrets = [], plural = False, paths = [''secret/x'']\<rparr>"

definition payload_only :: Config where
  "payload_only = \<lparr>SecretPayloadPath = ''/out/all.json'', SecretEnv = False, Workers = 1\<rparr>"

definition api_fetched :: SecretDefinition where
  "api_fetched = \<lparr>EnvKey = ''VAULT_SECRET_API'', SecretID = ''API'', SecretApex = ''secret/app/api'',
     OutputDestination = '''', secrets = [(''api'', ''abc123'')], plural = False,
     paths = [''secret/app/api'']\<rparr>"

definition db_fetched :: SecretDefinition where
  "db_fetched = \<lparr>EnvKey = ''VAULT_SECRETS_DB'', SecretID = ''DB'', SecretApex = ''secret/app/db'',
     OutputDestination = '''', secrets = [(''user'', ''u1''), (''pass'', ''p1'')], plural = True,
     paths = [''secret/app/db/user'', ''secret/app/db/pass'']\<rparr>"

definition waiting_state :: state where
  "waiting_state = \<lparr>defs = [], outstanding = [''secret/app/api''], trace = [], files = Map.empty\<rparr>"

definition env_export :: Config where
  "env_export = \<lparr>SecretPayloadPath = '''', SecretEnv = True, Workers = 1\<rparr>"


section \<open>The fetch engine\<close>

text \<open>
  Modelled from the spec: the fetch engine (\<open>ParallelReader\<close>) is in another file of the
  package. The spec's design: \<open>N\<close> worker routines each loop: receive a path from a
  shared request channel, call the store client's read, wrap the outcome as a fetch
  result, send it to a shared result channel; \<open>submit\<close> enqueues a read request without
  blocking, and \<open>next\<close> blocks until a result is available and returns it.

  A worker is waiting at the request channel, reading the path it received, or sending
  the result it got. The engine holds the two channels, its workers, the results that
  \<open>next\<close> has returned, and the paths read from the store so far.
\<close>

datatype worker = Waiting | Reading string | Sending SecretResult

record engine =
  requests :: "string list"
  workers :: "worker list"
  results :: "SecretResult list"
  taken :: "SecretResult list"
  reads :: "string list"

definition open_engine :: "nat \<Rightarrow> engine" where
  "open_engine N = \<lparr>requests = [], workers = replicate N Waiting, results = [], taken = [], reads = []\<rparr>"

text \<open>The outcome of the store client's read of a path, wrapped as a result.\<close>

definition fetch :: "Client \<Rightarrow> string \<Rightarrow> SecretResult" where
  "fetch client p = \<lparr>KeyPath = p, Secret = fst (Logical_Read client p), Err = snd (Logical_Read client p)\<rparr>"

text \<open>
  The steps of the engine, in any interleaving: the caller submits a path; worker \<open>i\<close>
  receives the oldest request, performs its read, publishes its result; the caller takes
  the oldest published result. A step that cannot be taken now (a worker with nothing to
  receive, \<open>next\<close> with no result published) is \<open>None\<close>: the routine waits.
\<close>

datatype action = Submit string | Receive nat | Perform nat | Publish nat | Take

fun engine_step :: "Client \<Rightarrow> action \<Rightarrow> engine \<Rightarrow> engine option" where
  "engine_step client (Submit p) e = Some (e\<lparr>requests := requests e @ [p]\<rparr>)"
| "engine_step client (Receive i) e =
     (if i < length (workers e) \<and> workers e ! i = Waiting then
        (case requests e of
           [] \<Rightarrow> None
         | p # ps \<Rightarrow> Some (e\<lparr>requests := ps, workers := (workers e)[i := Reading p]\<rparr>))
      else None)"
| "engine_step client (Perform i) e =
     (if i < length (workers e) then
        (case workers e ! i of
           Reading p \<Rightarrow>
             Some (e\<lparr>workers := (workers e)[i := Sending (fetch client p)], reads := reads e @ [p]\<rparr>)
         | other \<Rightarrow> None)
      else None)"
| "engine_step client (Publish i) e =
     (if i < length (workers e) then
        (case workers e ! i of
           Sending r \<Rightarrow> Some (e\<lparr>workers := (workers e)[i := Waiting], results := results e @ [r]\<rparr>)
         | other \<Rightarrow> None)
      else None)"
| "engine_step client Take e =
     (case results e of
        [] \<Rightarrow> None
      | r # rs \<Rightarrow> Some (e\<lparr>results := rs, taken := taken e @ [r]\<rparr>))"

fun engine_run :: "Client \<Rightarrow> action list \<Rightarrow> engine \<Rightarrow> engine option" where
  "engine_run client [] e = Some e"
| "engine_run client (a # as) e =
     (case engine_step client a e of None \<Rightarrow> None | Some e' \<Rightarrow> engine_run client as e')"

text \<open>The paths submitted by a schedule, and the steps that belong to the workers.\<close>

fun submitted :: "action list \<Rightarrow> string list" where
  "submitted [] = []"
| "submitted (Submit p # as) = p # submitted as"
| "submitted (a # as) = submitted as"

fun worker_action :: "action \<Rightarrow> bool" where
  "worker_action (Receive i) = True"
| "worker_action (Perform i) = True"
| "worker_action (Publish i) = True"
| "worker_action a = False"

text \<open>
  The path a worker holds, the path it has read and not yet published, and the number
  of steps it still has to take for it.
\<close>

fun holds :: "worker \<Rightarrow> string multiset" where
  "holds Waiting = {#}"
| "holds (Reading p) = {#p#}"
| "holds (Sending r) = {#KeyPath r#}"

fun holds_read :: "worker \<Rightarrow> string multiset" where
  "holds_read (Sending r) = {#KeyPath r#}"
| "holds_read w = {#}"

fun steps_left :: "worker \<Rightarrow> nat" where
  "steps_left Waiting = 0"
| "steps_left (Reading p) = 2"
| "steps_left (Sending r) = 1"

definition in_flight :: "engine \<Rightarrow> string multiset" where
  "in_flight e = sum_list (map holds (workers e))"

definition being_sent :: "engine \<Rightarrow> string multiset" where
  "being_sent e = sum_list (map holds_read (workers e))"

definition work_left :: "engine \<Rightarrow> nat" where
  "work_left e = 3 * length (requests e) + sum_list (map steps_left (workers e))"

text \<open>The results produced so far, and the engine with nothing left to do.\<close>

definition produced :: "engine \<Rightarrow> SecretResult list" where
  "produced e = taken e @ results e"

definition idle :: "engine \<Rightarrow> bool" where
  "idle e = (requests e = [] \<and> list_all (\<lambda>w. w = Waiting) (workers e))"

text \<open>
  Where the submitted paths are: still requested, held by a worker, or in a result
  produced. The reads match the results when every path read is in a result that is
  being sent or was produced. The results are wrapped when each is the outcome of the
  read of its own path.
\<close>

definition accounted :: "engine \<Rightarrow> string multiset" where
  "accounted e = mset (requests e) + in_flight e + mset (map KeyPath (produced e))"

definition reads_match :: "engine \<Rightarrow> bool" where
  "reads_match e = (mset (reads e) = being_sent e + mset (map KeyPath (produced e)))"

definition wrapped :: "Client \<Rightarrow> engine \<Rightarrow> bool" where
  "wrapped client e =
     ((\<forall>r \<in> set (produced e). r = fetch client (KeyPath r))
      \<and> (\<forall>r. Sending r \<in> set (workers e) \<longrightarrow> r = fetch client (KeyPath r)))"

text \<open>An example schedule for two workers, and the engines it reaches.\<close>

definition two_requests :: "action list" where
  "two_requests = [Submit ''secret/app/api'', Submit ''secret/app/db/user'', Receive 1, Receive 0,
     Perform 0, Publish 0, Perform 1, Take, Publish 1, Take]"

definition drained_engine :: engine where
  "drained_engine = \<lparr>requests = [], workers = [Waiting, Waiting], results = [],
     taken = [\<lparr>KeyPath = ''secret/app/db/user'', Secret = Some \<lparr>Data = [(''value'', IString ''u1'')]\<rparr>, Err = None\<rparr>,
              \<lparr>KeyPath = ''secret/app/api'', Secret = Some \<lparr>Data = [(''value'', IString ''abc123'')]\<rparr>, Err = None\<rparr>],
     reads = [''secret/app/db/user'', ''secret/app/api'']\<rparr>"

definition busy_engine :: engine where
  "busy_engine = \<lparr>requests = [],
     workers = [Sending \<lparr>KeyPath = ''secret/app/db/user'', Secret = Some \<lparr>Data = [(''value'', IString ''u1'')]\<rparr>, Err = None\<rparr>,
                Reading ''secret/app/api''],
     results = [], taken = [], reads = [''secret/app/db/user'']\<rparr>"


section \<open>Merging a result into a definition\<close>

lemma friendly_key_inj: "friendly_key kn k = friendly_key kn k' \<Longrightarrow> k = k'"
  by (auto simp: friendly_key_def split: if_splits)

lemma path_Split_segment:
  assumes "CHR ''/'' \<notin> set seg" and "dir = [] \<or> last dir = CHR ''/''"
  shows "path_Split (dir @ seg) = (dir, seg)"
proof -
  have "takeWhile (\<lambda>c. c \<noteq> CHR ''/'') (rev dir) = []"
    using assms(2) by (cases dir rule: rev_cases) auto
  moreover have "takeWhile (\<lambda>c. c \<noteq> CHR ''/'') (rev seg @ rev dir)
      = rev seg @ takeWhile (\<lambda>c. c \<noteq> CHR ''/'') (rev dir)"
    by (rule takeWhile_append2) (use assms(1) in auto)
  ultimately show ?thesis by (simp add: path_Split_def)
qed

lemma addSecrets_range_step:
  "addSecrets_range kn m ((k, IString s) # kvs) =
     addSecrets_range kn (AList.update (friendly_key kn k) s m) kvs"
  by (simp add: friendly_key_def defaultKeyName_def)

lemma addSecrets_range_total:
  "(\<forall>(k, v) \<in> set kvs. is_string v) \<Longrightarrow> \<exists>m'. addSecrets_range kn m kvs = Inr m'"
proof (induction kvs arbitrary: m)
  case Nil
  then show ?case by simp
next
  case (Cons kv kvs)
  obtain k v where kv: "kv = (k, v)" by (cases kv)
  with Cons.prems obtain s where v: "v = IString s" by (cases v) auto
  from Cons.prems have "\<forall>(k, v) \<in> set kvs. is_string v" by simp
  from Cons.IH[OF this] show ?case
    unfolding kv v addSecrets_range_step by blast
qed

lemma addSecrets_range_panics:
  "(k, v) \<in> set kvs \<Longrightarrow> \<not> is_string v \<Longrightarrow>
   \<exists>w. \<not> is_string w \<and> w \<in> snd ` set kvs \<and> addSecrets_range kn m kvs = Inl (PanicTypeAssertion w)"
proof (induction kvs arbitrary: m)
  case Nil
  then show ?case by simp
next
  case (Cons kv kvs)
  obtain k0 v0 where kv: "kv = (k0, v0)" by (cases kv)
  show ?case
  proof (cases "is_string v0")
    case False
    then have "addSecrets_range kn m (kv # kvs) = Inl (PanicTypeAssertion v0)"
      unfolding kv by (cases v0) auto
    with False show ?thesis unfolding kv by force
  next
    case True
    then obtain s where v0: "v0 = IString s" by (cases v0) auto
    from True Cons.prems have "(k, v) \<in> set kvs" unfolding kv by auto
    from Cons.IH[OF this Cons.prems(2)] show ?thesis
      unfolding kv v0 addSecrets_range_step by auto
  qed
qed

lemma addSecrets_range_other:
  "addSecrets_range kn m kvs = Inr m' \<Longrightarrow> key \<notin> friendly_key kn ` fst ` set kvs \<Longrightarrow>
   map_of m' key = map_of m key"
proof (induction kvs arbitrary: m)
  case Nil
  then show ?case by simp
next
  case (Cons kv kvs)
  obtain k v where kv: "kv = (k, v)" by (cases kv)
  from Cons.prems(1) obtain s where v: "v = IString s"
    unfolding kv by (cases v) auto
  from Cons.prems(1) have run: "addSecrets_range kn (AList.update (friendly_key kn k) s m) kvs = Inr m'"
    unfolding kv v addSecrets_range_step .
  from Cons.prems(2) have "key \<notin> friendly_key kn ` fst ` set kvs" and ne: "key \<noteq> friendly_key kn k"
    unfolding kv by auto
  from Cons.IH[OF run this(1)] ne show ?case
    by (simp add: update_conv')
qed

lemma addSecrets_range_stored:
  "addSecrets_range kn m kvs = Inr m' \<Longrightarrow> distinct (map fst kvs) \<Longrightarrow> (k, IString s) \<in> set kvs \<Longrightarrow>
   map_of m' (friendly_key kn k) = Some s"
proof (induction kvs arbitrary: m)
  case Nil
  then show ?case by simp
next
  case (Cons kv kvs)
  obtain k0 v0 where kv: "kv = (k0, v0)" by (cases kv)
  from Cons.prems(1) obtain s0 where v0: "v0 = IString s0"
    unfolding kv by (cases v0) auto
  from Cons.prems(1) have run: "addSecrets_range kn (AList.update (friendly_key kn k0) s0 m) kvs = Inr m'"
    unfolding kv v0 addSecrets_range_step .
  from Cons.prems(2) have dist: "distinct (map fst kvs)" and fresh: "k0 \<notin> fst ` set kvs"
    unfolding kv by auto
  show ?case
  proof (cases "(k, IString s) \<in> set kvs")
    case True
    from Cons.IH[OF run dist True] show ?thesis .
  next
    case False
    with Cons.prems(3) have eq: "k = k0" "s = s0" unfolding kv v0 by auto
    have "friendly_key kn k0 \<notin> friendly_key kn ` fst ` set kvs"
      using fresh friendly_key_inj by blast
    from addSecrets_range_other[OF run this] show ?thesis
      unfolding eq by (simp add: update_conv')
  qed
qed

lemma addSecrets_present:
  assumes "Err r = None" and "Secret r = Some s"
  shows "addSecrets sd r =
     (case addSecrets_range (snd (path_Split (KeyPath r))) (secrets sd) (Data s) of
        Inl a \<Rightarrow> Inl a | Inr m \<Rightarrow> Inr (sd\<lparr>secrets := m\<rparr>, None))"
  using assms by (simp add: addSecrets_def Let_def)

text \<open>
  Claim C1. When a result with a present secret, no error and string attribute values is
  merged, the key name is the final segment of the result's path (what follows its last
  slash); the attribute named \<open>value\<close> is stored under the key name itself and every
  other attribute \<open>k\<close> under \<open>keyName_k\<close>; a key that was already present gets the
  new value (the last write wins), and every key that is not written keeps its entry.
\<close>

theorem addSecrets_stores_attributes:
  assumes path: "KeyPath r = dir @ keyName" "CHR ''/'' \<notin> set keyName"
      "dir = [] \<or> last dir = CHR ''/''"
    and ok: "Err r = None" "Secret r = Some s"
    and dist: "distinct (map fst (Data s))"
    and strs: "\<forall>(k, v) \<in> set (Data s). is_string v"
  shows "\<exists>m'. addSecrets sd r = Inr (sd\<lparr>secrets := m'\<rparr>, None)
           \<and> (\<forall>v. (''value'', IString v) \<in> set (Data s) \<longrightarrow> map_of m' keyName = Some v)
           \<and> (\<forall>k v. k \<noteq> ''value'' \<and> (k, IString v) \<in> set (Data s)
                  \<longrightarrow> map_of m' (keyName @ ''_'' @ k) = Some v)
           \<and> (\<forall>key. key \<notin> friendly_key keyName ` fst ` set (Data s)
                  \<longrightarrow> map_of m' key = map_of (secrets sd) key)"
proof -
  have kn: "snd (path_Split (KeyPath r)) = keyName"
    using path by (simp add: path_Split_segment)
  from addSecrets_range_total[OF strs] obtain m'
    where run: "addSecrets_range keyName (secrets sd) (Data s) = Inr m'" by blast
  have res: "addSecrets sd r = Inr (sd\<lparr>secrets := m'\<rparr>, None)"
    using addSecrets_present[OF ok] run kn by simp
  have dflt: "map_of m' keyName = Some v" if "(''value'', IString v) \<in> set (Data s)" for v
    using addSecrets_range_stored[OF run dist that] by (simp add: friendly_key_def)
  have other: "map_of m' (keyName @ ''_'' @ k) = Some v"
    if "k \<noteq> ''value''" "(k, IString v) \<in> set (Data s)" for k v
    using addSecrets_range_stored[OF run dist that(2)] that(1) by (simp add: friendly_key_def)
  have frame: "map_of m' key = map_of (secrets sd) key"
    if "key \<notin> friendly_key keyName ` fst ` set (Data s)" for key
    using addSecrets_range_other[OF run that] .
  from res dflt other frame show ?thesis by blast
qed

theorem addSecrets_stores_attributes_witness:
  "KeyPath db_result = ''secret/app/'' @ ''DB'' \<and> map_of (secrets db_definition) ''DB'' = Some ''old''
   \<and> (\<exists>m'. addSecrets db_definition db_result = Inr (db_definition\<lparr>secrets := m'\<rparr>, None)
          \<and> map_of m' ''DB'' = Some ''v1''
          \<and> map_of m' ''DB_user'' = Some ''u''
          \<and> map_of m' ''DB_pass'' = Some ''p'')"
proof -
  let ?s = "\<lparr>Data = [(''value'', IString ''v1''), (''user'', IString ''u''), (''pass'', IString ''p'')]\<rparr>"
  have h1: "KeyPath db_result = ''secret/app/'' @ ''DB''" by (simp add: db_result_def)
  have h2: "CHR ''/'' \<notin> set ''DB''" by simp
  have h3: "''secret/app/'' = [] \<or> last ''secret/app/'' = CHR ''/''" by simp
  have h4: "Err db_result = None" by (simp add: db_result_def)
  have h5: "Secret db_result = Some ?s" by (simp add: db_result_def)
  have h6: "distinct (map fst (Data ?s))" by simp
  have h7: "\<forall>(k, v) \<in> set (Data ?s). is_string v" by simp
  have old: "map_of (secrets db_definition) ''DB'' = Some ''old''" by (simp add: db_definition_def)
  from addSecrets_stores_attributes[OF h1 h2 h3 h4 h5 h6 h7, of db_definition]
  obtain m' where m':
    "addSecrets db_definition db_result = Inr (db_definition\<lparr>secrets := m'\<rparr>, None)
     \<and> (\<forall>v. (''value'', IString v) \<in> set (Data ?s) \<longrightarrow> map_of m' ''DB'' = Some v)
     \<and> (\<forall>k v. k \<noteq> ''value'' \<and> (k, IString v) \<in> set (Data ?s)
            \<longrightarrow> map_of m' (''DB'' @ ''_'' @ k) = Some v)
     \<and> (\<forall>key. key \<notin> friendly_key ''DB'' ` fst ` set (Data ?s)
            \<longrightarrow> map_of m' key = map_of (secrets db_definition) key)" ..
  from m' have res: "addSecrets db_definition db_result = Inr (db_definition\<lparr>secrets := m'\<rparr>, None)"
    by (rule conjunct1)
  from m' have dflt: "\<forall>v. (''value'', IString v) \<in> set (Data ?s) \<longrightarrow> map_of m' ''DB'' = Some v"
    by (elim conjE)
  from m' have other: "\<forall>k v. k \<noteq> ''value'' \<and> (k, IString v) \<in> set (Data ?s)
            \<longrightarrow> map_of m' (''DB'' @ ''_'' @ k) = Some v"
    by (elim conjE)
  have a: "map_of m' ''DB'' = Some ''v1''"
    using dflt[rule_format, of "''v1''"] by simp
  have b: "map_of m' ''DB_user'' = Some ''u''"
    using other[rule_format, of "''user''" "''u''"] by simp
  have c: "map_of m' ''DB_pass'' = Some ''p''"
    using other[rule_format, of "''pass''" "''p''"] by simp
  from res a b c have "\<exists>m'. addSecrets db_definition db_result = Inr (db_definition\<lparr>secrets := m'\<rparr>, None)
          \<and> map_of m' ''DB'' = Some ''v1''
          \<and> map_of m' ''DB_user'' = Some ''u''
          \<and> map_of m' ''DB_pass'' = Some ''p''"
    by (intro exI[of _ m'] conjI)
  with h1 old show ?thesis by (intro conjI)
qed


section \<open>The unchecked type assertion\<close>

lemma addSecrets_range_Inr_strings:
  "addSecrets_range kn m kvs = Inr m' \<Longrightarrow> \<forall>(k, v) \<in> set kvs. is_string v"
proof (rule ccontr)
  assume run: "addSecrets_range kn m kvs = Inr m'"
  assume "\<not> (\<forall>(k, v) \<in> set kvs. is_string v)"
  then obtain k v where "(k, v) \<in> set kvs" "\<not> is_string v" by auto
  from addSecrets_range_panics[OF this, of kn m] run show False by auto
qed

text \<open>
  Claim C10. When the result that is merged has no error and a present secret, and one
  of its attribute values is not a string, \<open>addSecrets\<close> ends in the panic of the
  type assertion on such a value: it neither returns nor ends in a logged fatal
  message. It returns exactly when every attribute value is a string.
\<close>

theorem addSecrets_panics_on_non_string:
  assumes "Err r = None" and "Secret r = Some s"
  shows "((\<exists>(k, v) \<in> set (Data s). \<not> is_string v) \<longrightarrow>
            (\<exists>w. w \<in> snd ` set (Data s) \<and> \<not> is_string w
                 \<and> addSecrets sd r = Inl (PanicTypeAssertion w)
                 \<and> \<not> is_fatal (PanicTypeAssertion w)))
       \<and> ((\<exists>sd' e. addSecrets sd r = Inr (sd', e)) \<longleftrightarrow> (\<forall>(k, v) \<in> set (Data s). is_string v))"
proof (intro conjI impI iffI)
  assume "\<exists>(k, v) \<in> set (Data s). \<not> is_string v"
  then obtain k v where "(k, v) \<in> set (Data s)" "\<not> is_string v" by auto
  from addSecrets_range_panics[OF this, of "snd (path_Split (KeyPath r))" "secrets sd"]
  obtain w where "\<not> is_string w" "w \<in> snd ` set (Data s)"
    and "addSecrets_range (snd (path_Split (KeyPath r))) (secrets sd) (Data s) = Inl (PanicTypeAssertion w)"
    by blast
  then show "\<exists>w. w \<in> snd ` set (Data s) \<and> \<not> is_string w
                 \<and> addSecrets sd r = Inl (PanicTypeAssertion w)
                 \<and> \<not> is_fatal (PanicTypeAssertion w)"
    using addSecrets_present[OF assms, of sd] by auto
next
  assume "\<exists>sd' e. addSecrets sd r = Inr (sd', e)"
  then obtain m' where "addSecrets_range (snd (path_Split (KeyPath r))) (secrets sd) (Data s) = Inr m'"
    using addSecrets_present[OF assms, of sd] by (auto split: sum.splits)
  then show "\<forall>(k, v) \<in> set (Data s). is_string v" by (rule addSecrets_range_Inr_strings)
next
  assume "\<forall>(k, v) \<in> set (Data s). is_string v"
  from addSecrets_range_total[OF this] obtain m'
    where "addSecrets_range (snd (path_Split (KeyPath r))) (secrets sd) (Data s) = Inr m'" by blast
  then show "\<exists>sd' e. addSecrets sd r = Inr (sd', e)"
    using addSecrets_present[OF assms, of sd] by simp
qed

theorem addSecrets_panics_on_non_string_witness:
  "Err port_result = None \<and> \<not> is_string (INumber ''5432'')
   \<and> addSecrets db_definition port_result = Inl (PanicTypeAssertion (INumber ''5432''))
   \<and> \<not> (\<exists>sd' e. addSecrets db_definition port_result = Inr (sd', e))"
proof -
  let ?s = "\<lparr>Data = [(''value'', IString ''v1''), (''port'', INumber ''5432'')]\<rparr>"
  have h1: "Err port_result = None" by (simp add: port_result_def)
  have h2: "Secret port_result = Some ?s" by (simp add: port_result_def)
  note inst = addSecrets_panics_on_non_string[OF h1 h2, of db_definition]
  have bad: "\<exists>(k, v) \<in> set (Data ?s). \<not> is_string v" by simp
  from inst bad obtain w where w: "w \<in> snd ` set (Data ?s)" "\<not> is_string w"
      "addSecrets db_definition port_result = Inl (PanicTypeAssertion w)"
    by blast
  from w(1,2) have "w = INumber ''5432''" by auto
  with w(3) have p: "addSecrets db_definition port_result = Inl (PanicTypeAssertion (INumber ''5432''))"
    by simp
  then have "\<not> (\<exists>sd' e. addSecrets db_definition port_result = Inr (sd', e))" by simp
  with h1 p show ?thesis by simp
qed


section \<open>Reading results from the reader\<close>

lemma merge_result_Err: "Err r = Some e \<Longrightarrow> merge_result sd r = Inl (FatalResultErr e)"
  by (simp add: merge_result_def)

lemma merge_result_absent:
  "Err r = None \<Longrightarrow> Secret r = None \<Longrightarrow>
   merge_result sd r = Inl (FatalNotFound (snd (path_Split (KeyPath r))) (KeyPath r))"
  by (simp add: merge_result_def addSecrets_def Let_def)

lemma merge_result_Inr:
  "merge_result sd r = Inr sd' \<Longrightarrow>
   Err r = None \<and> (\<exists>s. Secret r = Some s \<and> addSecrets sd r = Inr (sd', None))"
  by (auto simp: merge_result_def addSecrets_def Let_def split: option.splits sum.splits)

lemma ReadSecretResult_Some:
  "ReadSecretResult h client st = Some (r, st') \<Longrightarrow>
   (Secret r, Err r) = Logical_Read client (KeyPath r)
   \<and> KeyPath r \<in> set (outstanding st)
   \<and> trace st' = trace st @ [Delivered (KeyPath r)]
   \<and> defs st' = defs st \<and> files st' = files st
   \<and> mset (outstanding st) = add_mset (KeyPath r) (mset (outstanding st'))"
proof -
  assume a: "ReadSecretResult h client st = Some (r, st')"
  then obtain p ps where o: "outstanding st = p # ps"
    by (cases "outstanding st") (auto simp: ReadSecretResult_def)
  define i where "i = next_done h (outstanding st) mod length (outstanding st)"
  have i: "i < length (outstanding st)" unfolding i_def using o by simp
  from a o have r: "r = \<lparr>KeyPath = outstanding st ! i, Secret = fst (Logical_Read client (outstanding st ! i)),
      Err = snd (Logical_Read client (outstanding st ! i))\<rparr>"
    and st': "st' = st\<lparr>outstanding := take i (outstanding st) @ drop (Suc i) (outstanding st),
                      trace := trace st @ [Delivered (outstanding st ! i)]\<rparr>"
    by (auto simp: ReadSecretResult_def Let_def i_def split: prod.splits)
  have "mset (outstanding st) = mset (take i (outstanding st) @ (outstanding st ! i) # drop (Suc i) (outstanding st))"
    using i by (simp add: id_take_nth_drop[symmetric])
  then show ?thesis using r st' i by simp
qed


lemma delivered_append: "delivered (xs @ ys) = delivered xs @ delivered ys"
  by (induction xs rule: delivered.induct) auto

lemma emit_fields [simp]:
  "defs (emit evs st) = defs st" "outstanding (emit evs st) = outstanding st"
  "files (emit evs st) = files st" "trace (emit evs st) = trace st @ evs"
  by (simp_all add: emit_def)

lemma delivered_request_paths: "delivered (trace (request_paths ps st)) = delivered (trace st)"
  by (induction ps arbitrary: st) (simp_all add: AsyncRequestKeyPath_def delivered_append)

lemma Walk_events: "delivered (fst (Walk client sd)) = []"
  by (auto simp: Walk_def Let_def split: prod.splits option.splits)

lemma delivered_expand:
  "expand client sd st = Inr (sd', st') \<Longrightarrow> delivered (trace st') = delivered (trace st)"
  "expand client sd st = Inl (a, st') \<Longrightarrow> delivered (trace st') = delivered (trace st)"
  using Walk_events[of client sd]
  by (auto simp: expand_def delivered_append split: if_splits prod.splits sum.splits)

lemma merge_result_bad:
  "Err r \<noteq> None \<or> Secret r = None \<Longrightarrow> \<exists>a. merge_result sd r = Inl a \<and> is_fatal a"
  by (cases "Err r") (auto simp: merge_result_Err merge_result_absent)

lemma good_read_result:
  "ReadSecretResult h client st = Some (r, st') \<Longrightarrow>
   good_read client (KeyPath r) \<longleftrightarrow> Err r = None \<and> Secret r \<noteq> None"
  by (drule ReadSecretResult_Some)
     (auto simp: good_read_def split: prod.splits option.splits dest: sym)

lemma drain_results_good:
  "all_good client (trace st) \<Longrightarrow>
   (case drain_results h client n sd st of
      Inr (sd', st') \<Rightarrow> all_good client (trace st')
    | Inl (a, st') \<Rightarrow> all_good client (trace st') \<or> stopped_at_bad client a (trace st'))"
proof (induction n arbitrary: sd st)
  case 0
  then show ?case by simp
next
  case (Suc n)
  show ?case
  proof (cases "ReadSecretResult h client st")
    case None
    with Suc.prems show ?thesis by simp
  next
    case (Some rs)
    obtain r st1 where rs: "rs = (r, st1)" by (cases rs)
    note rd = Some[unfolded rs]
    from ReadSecretResult_Some[OF rd] have tr: "trace st1 = trace st @ [Delivered (KeyPath r)]" by simp
    show ?thesis
    proof (cases "good_read client (KeyPath r)")
      case True
      with Suc.prems tr have g1: "all_good client (trace st1)"
        by (simp add: all_good_def delivered_append)
      show ?thesis
      proof (cases "merge_result sd r")
        case (Inl a)
        with rd g1 show ?thesis by simp
      next
        case (Inr sd1)
        with rd Suc.IH[OF g1, of sd1] show ?thesis by simp
      qed
    next
      case False
      with good_read_result[OF rd] have "Err r \<noteq> None \<or> Secret r = None" by auto
      from merge_result_bad[OF this, of sd] obtain a where a: "merge_result sd r = Inl a" "is_fatal a"
        by blast
      have "stopped_at_bad client a (trace st1)"
        unfolding stopped_at_bad_def using a(2) tr False Suc.prems by simp
      with rd a(1) show ?thesis by simp
    qed
  qed
qed

lemma SecretFetcher_env_good:
  assumes "all_good client (trace st)"
  shows "(case SecretFetcher_env h client config envs st env of
      Inr st' \<Rightarrow> all_good client (trace st')
    | Inl (a, st') \<Rightarrow> all_good client (trace st') \<or> stopped_at_bad client a (trace st'))"
proof (cases "define_secret envs env")
  case None
  with assms show ?thesis by (simp add: SecretFetcher_env_def)
next
  case (Some sd0)
  define sd where "sd = resolve_destination envs sd0"
  show ?thesis
  proof (cases "no_output_method config sd")
    case True
    with Some assms show ?thesis
      by (simp add: SecretFetcher_env_def sd_def all_good_def delivered_append)
  next
    case False
    show ?thesis
    proof (cases "expand client sd st")
      case (Inl stop)
      obtain a st' where stop: "stop = (a, st')" by (cases stop)
      from delivered_expand(2)[OF Inl[unfolded stop]] assms have "all_good client (trace st')"
        by (simp add: all_good_def)
      with Some False Inl stop show ?thesis by (simp add: SecretFetcher_env_def sd_def)
    next
      case (Inr res)
      obtain sd1 st1 where res: "res = (sd1, st1)" by (cases res)
      from delivered_expand(1)[OF Inr[unfolded res]] assms
      have "all_good client (trace (request_paths (paths sd1) st1))"
        by (simp add: all_good_def delivered_request_paths)
      from drain_results_good[OF this, of h "length (paths sd1)" sd1]
      show ?thesis using Some False Inr res
        by (auto simp: SecretFetcher_env_def sd_def all_good_def split: sum.splits)
    qed
  qed
qed

lemma SecretFetcher_envs_good:
  "all_good client (trace st) \<Longrightarrow>
   (case SecretFetcher_envs h client config envs st es of
      Inr st' \<Rightarrow> all_good client (trace st')
    | Inl (a, st') \<Rightarrow> all_good client (trace st') \<or> stopped_at_bad client a (trace st'))"
proof (induction es arbitrary: st)
  case Nil
  then show ?case by simp
next
  case (Cons e es)
  from SecretFetcher_env_good[OF Cons.prems, of h config envs e]
  show ?case
  proof (cases "SecretFetcher_env h client config envs st e")
    case (Inl stop)
    with SecretFetcher_env_good[OF Cons.prems, of h config envs e] show ?thesis by simp
  next
    case (Inr st1)
    with SecretFetcher_env_good[OF Cons.prems, of h config envs e]
    have "all_good client (trace st1)" by simp
    from Cons.IH[OF this] Inr show ?thesis by simp
  qed
qed


lemma delivered_filter: "delivered (filter store_event tr) = delivered tr"
  by (induction tr rule: delivered.induct) auto

lemma setEnvSecrets_range_store:
  "filter store_event (trace (fst (setEnvSecrets_range kvs st))) = filter store_event (trace st)"
  by (induction kvs st rule: setEnvSecrets_range.induct) (auto split: option.splits)

lemma WriteFile_store:
  "WriteFile h p b st = Inr st' \<Longrightarrow> filter store_event (trace st') = filter store_event (trace st)"
  by (auto simp: WriteFile_def split: option.splits)

lemma writeJSONSecrets_store:
  "writeJSONSecrets h m p st = Inr st' \<Longrightarrow> filter store_event (trace st') = filter store_event (trace st)"
  by (auto simp: writeJSONSecrets_def split: sum.splits dest: WriteFile_store)

lemma writeSecrets_range_store:
  "filter store_event (trace (fst (writeSecrets_range h dest kvs st))) = filter store_event (trace st)"
proof (induction kvs arbitrary: st)
  case Nil
  then show ?case by simp
next
  case (Cons kv kvs)
  obtain k v where kv: "kv = (k, v)" by (cases kv)
  show ?case
  proof (cases "WriteFile h dest v st")
    case (Inl e)
    then show ?thesis by (simp add: kv)
  next
    case (Inr st1)
    from Cons.IH[of "emit [Logged (WroteSecretTo dest)] st1"] WriteFile_store[OF Inr] Inr
    show ?thesis by (simp add: kv)
  qed
qed

lemma writeSecretsToDestination_store:
  "filter store_event (trace (fst (writeSecretsToDestination h sd st))) = filter store_event (trace st)"
  by (auto simp: writeSecretsToDestination_def writeSecrets_range_store
           split: sum.splits dest: writeJSONSecrets_store)

lemma output_definition_store:
  "output_definition h config st sd = Inr st' \<Longrightarrow>
     filter store_event (trace st') = filter store_event (trace st)"
  "output_definition h config st sd = Inl (a, st') \<Longrightarrow>
     filter store_event (trace st') = filter store_event (trace st)"
  by (auto simp: output_definition_def Let_def setEnvSecrets_def setEnvSecrets_range_store
        writeSecretsToDestination_store
        split: if_splits sum.splits dest!: writeJSONSecrets_store)

lemma output_definitions_store:
  "output_definitions h config st sds = Inr st' \<Longrightarrow>
     filter store_event (trace st') = filter store_event (trace st)"
  "output_definitions h config st sds = Inl (a, st') \<Longrightarrow>
     filter store_event (trace st') = filter store_event (trace st)"
proof (induction sds arbitrary: st)
  case Nil
  { case 1 then show ?case by simp }
  { case 2 then show ?case by simp }
next
  case (Cons sd sds)
  { case 1
    then show ?case
      using Cons.IH(1) output_definition_store(1)[of h config st sd]
      by (auto split: sum.splits) }
  { case 2
    then show ?case
      using Cons.IH(2) output_definition_store[of h config st sd]
      by (auto split: sum.splits) }
qed

lemma SecretFetcher_good:
  "(case SecretFetcher h client config envs fs of
      Inr st \<Rightarrow> all_good client (trace st)
    | Inl (a, st) \<Rightarrow> all_good client (trace st) \<or> stopped_at_bad client a (trace st))"
proof -
  let ?st0 = "\<lparr>defs = [], outstanding = [], trace = [Logged StartingSecretFetch], files = fs\<rparr>"
  have g0: "all_good client (trace ?st0)" by (simp add: all_good_def)
  show ?thesis
  proof (cases "SecretFetcher_envs h client config envs ?st0 envs")
    case (Inl stop)
    with SecretFetcher_envs_good[OF g0, of h config envs envs] show ?thesis
      by (simp add: SecretFetcher_def)
  next
    case (Inr st1)
    with SecretFetcher_envs_good[OF g0, of h config envs envs] have g1: "all_good client (trace st1)"
      by simp
    have keep: "all_good client tr" if "filter store_event tr = filter store_event (trace st1)" for tr
      using g1 that unfolding all_good_def by (metis delivered_filter)
    show ?thesis
    proof (cases "output_definitions h config st1 (defs st1)")
      case (Inl stop)
      obtain a st' where stop: "stop = (a, st')" by (cases stop)
      from keep[OF output_definitions_store(2)[OF Inl[unfolded stop]]]
      show ?thesis using Inr Inl stop by (simp add: SecretFetcher_def)
    next
      case (Inr st')
      from keep[OF output_definitions_store(1)[OF Inr]]
      show ?thesis using \<open>SecretFetcher_envs h client config envs ?st0 envs = Inr st1\<close> Inr
        by (simp add: SecretFetcher_def)
    qed
  qed
qed

text \<open>
  Claim C6. A result read from the reader that carries an error, or whose secret is
  absent, ends the run with a logged fatal message: in the check and merge of one result,
  in the loop that reads the results, and in the whole run, where such a result is the
  last event of the trace. A result is merged only when it has no error and a present
  secret, so a run that ends normally has read good results only.
\<close>

theorem drained_result_fatal_unless_present:
  "((Err r \<noteq> None \<or> Secret r = None) \<longrightarrow> (\<exists>a. merge_result sd r = Inl a \<and> is_fatal a))
   \<and> (\<forall>sd'. merge_result sd r = Inr sd' \<longrightarrow> Err r = None \<and> (\<exists>s. Secret r = Some s))
   \<and> (\<forall>st1. ReadSecretResult h client st = Some (r, st1) \<and> (Err r \<noteq> None \<or> Secret r = None)
          \<longrightarrow> (\<exists>a. drain_results h client (Suc n) sd st = Inl (a, st1) \<and> is_fatal a))
   \<and> (case SecretFetcher h client config envs fs of
         Inr st' \<Rightarrow> all_good client (trace st')
       | Inl (a, st') \<Rightarrow> all_good client (trace st') \<or> stopped_at_bad client a (trace st'))"
proof (intro conjI allI impI)
  assume "Err r \<noteq> None \<or> Secret r = None"
  then show "\<exists>a. merge_result sd r = Inl a \<and> is_fatal a" by (rule merge_result_bad)
next
  fix sd' assume "merge_result sd r = Inr sd'"
  from merge_result_Inr[OF this] show "Err r = None" and "\<exists>s. Secret r = Some s" by auto
next
  fix st1
  assume a: "ReadSecretResult h client st = Some (r, st1) \<and> (Err r \<noteq> None \<or> Secret r = None)"
  then obtain b where "merge_result sd r = Inl b" "is_fatal b"
    using merge_result_bad[of r sd] by blast
  with a show "\<exists>a. drain_results h client (Suc n) sd st = Inl (a, st1) \<and> is_fatal a" by simp
next
  show "case SecretFetcher h client config envs fs of
         Inr st' \<Rightarrow> all_good client (trace st')
       | Inl (a, st') \<Rightarrow> all_good client (trace st') \<or> stopped_at_bad client a (trace st')"
    by (rule SecretFetcher_good)
qed

theorem drained_result_fatal_unless_present_witness:
  "Err denied_result \<noteq> None
   \<and> (\<exists>a. merge_result db_definition denied_result = Inl a \<and> is_fatal a)
   \<and> Secret missing_result = None
   \<and> (\<exists>a. merge_result db_definition missing_result = Inl a \<and> is_fatal a)
   \<and> (\<exists>sd'. merge_result db_definition db_result = Inr sd') \<and> Err db_result = None
   \<and> (\<exists>a st1. drain_results example_host denying_store (Suc 0) db_definition waiting_state
                  = Inl (a, st1) \<and> is_fatal a)
   \<and> (\<exists>a st. SecretFetcher example_host denying_store env_export
                 [''VAULT_SECRET_API=secret/app/api''] Map.empty = Inl (a, st)
              \<and> stopped_at_bad denying_store a (trace st))"
proof -
  let ?st1 = "waiting_state\<lparr>outstanding := [], trace := [Delivered ''secret/app/api'']\<rparr>"
  have rd: "ReadSecretResult example_host denying_store waiting_state = Some (denied_result, ?st1)"
    by (simp add: ReadSecretResult_def waiting_state_def example_host_def denying_store_def
          denied_result_def Let_def)
  have e: "Err denied_result \<noteq> None" by (simp add: denied_result_def)
  have m: "Secret missing_result = None" by (simp add: missing_result_def)
  have g: "merge_result db_definition db_result
             = Inr (db_definition\<lparr>secrets := [(''DB'', ''v1''), (''DB_user'', ''u''), (''DB_pass'', ''p'')]\<rparr>)"
    by code_simp
  have run: "case SecretFetcher example_host denying_store env_export
                 [''VAULT_SECRET_API=secret/app/api''] Map.empty of
               Inr st \<Rightarrow> False
             | Inl (a, st) \<Rightarrow> \<not> all_good denying_store (trace st)"
    by code_simp
  note i1 = drained_result_fatal_unless_present[of denied_result db_definition
      example_host denying_store waiting_state 0 env_export "[''VAULT_SECRET_API=secret/app/api'']" Map.empty]
  note i2 = drained_result_fatal_unless_present[of missing_result db_definition
      example_host denying_store waiting_state 0 env_export "[''VAULT_SECRET_API=secret/app/api'']" Map.empty]
  note i3 = drained_result_fatal_unless_present[of db_result db_definition
      example_host denying_store waiting_state 0 env_export "[''VAULT_SECRET_API=secret/app/api'']" Map.empty]
  from i1 e have c1: "\<exists>a. merge_result db_definition denied_result = Inl a \<and> is_fatal a" by blast
  from i1 e rd have c6: "\<exists>a st1. drain_results example_host denying_store (Suc 0) db_definition
      waiting_state = Inl (a, st1) \<and> is_fatal a"
    by blast
  from i2 m have c2: "\<exists>a. merge_result db_definition missing_result = Inl a \<and> is_fatal a" by blast
  from i3 g have c3: "Err db_result = None" by blast
  from g have c4: "\<exists>sd'. merge_result db_definition db_result = Inr sd'" by blast
  from i1 have "case SecretFetcher example_host denying_store env_export
                 [''VAULT_SECRET_API=secret/app/api''] Map.empty of
         Inr st' \<Rightarrow> all_good denying_store (trace st')
       | Inl (a, st') \<Rightarrow> all_good denying_store (trace st') \<or> stopped_at_bad denying_store a (trace st')"
    by (elim conjE)
  with run have c5: "\<exists>a st. SecretFetcher example_host denying_store env_export
                 [''VAULT_SECRET_API=secret/app/api''] Map.empty = Inl (a, st)
              \<and> stopped_at_bad denying_store a (trace st)"
    by (cases "SecretFetcher example_host denying_store env_export
                 [''VAULT_SECRET_API=secret/app/api''] Map.empty") auto
  from e c1 m c2 c4 c3 c6 c5 show ?thesis by (intro conjI)
qed

section \<open>What \<open>Walk\<close> returns\<close>










lemma join_slash_empty: "xs = [] \<Longrightarrow> join_slash xs = ''''"
  by simp






lemma requested_append: "requested (xs @ ys) = requested xs @ requested ys"
  by (induction xs rule: requested.induct) auto

lemma Walk_no_request: "requested (fst (Walk client sd)) = []"
  by (auto simp: Walk_def Let_def split: prod.splits option.splits)

lemma Walk_empty_result:
  assumes "snd (Logical_List client (SecretApex sd)) \<noteq> None
           \<or> fst (Logical_List client (SecretApex sd)) = None
           \<or> (\<exists>lst. fst (Logical_List client (SecretApex sd)) = Some lst \<and> Data lst = [])"
  shows "\<exists>err. snd (Walk client sd) = Inl err"
  using assms by (auto simp: Walk_def Let_def split: prod.splits option.splits)

text \<open>
  When the list call returns an error, no secret, or a secret whose \<open>Data\<close> mapping
  is empty, the walk of a plural definition fails and the run ends with a logged fatal
  message, no path of the definition having been requested.
\<close>

lemma failed_walk_is_fatal_before_fetching:
  assumes "define_secret envs env = Some sd0" and "sd = resolve_destination envs sd0"
    and "\<not> no_output_method config sd" and "plural sd"
    and "snd (Logical_List client (SecretApex sd)) \<noteq> None
           \<or> fst (Logical_List client (SecretApex sd)) = None
           \<or> (\<exists>lst. fst (Logical_List client (SecretApex sd)) = Some lst \<and> Data lst = [])"
  shows "\<exists>err st'. SecretFetcher_env h client config envs st env = Inl (FatalWalk err, st')
           \<and> requested (trace st') = requested (trace st)"
proof -
  from Walk_empty_result[OF assms(5)] obtain err where err: "snd (Walk client sd) = Inl err" by blast
  have "expand client sd st = Inl (FatalWalk err, emit (fst (Walk client sd)) st)"
    using assms(4) err by (cases "Walk client sd") (simp add: expand_def)
  moreover have "requested (trace (emit (fst (Walk client sd)) st)) = requested (trace st)"
    by (simp add: requested_append Walk_no_request)
  ultimately show ?thesis
    using assms(1,2,3) by (simp add: SecretFetcher_env_def)
qed

text \<open>
  Claim C3 at the listing \<open>{"keys": []}\<close>. The \<open>Data\<close> mapping has one entry, so the
  guard on an empty result does not fire; the sequence under \<open>keys\<close> is empty, so the
  walk succeeds with no path. The run goes on to the fetch loops with an empty \<open>paths\<close>,
  requests nothing, and keeps the definition for output.
\<close>

theorem Walk_accepts_empty_keys:
  "Logical_List odd_store ''odd/none'' = (Some \<lparr>Data = [(''keys'', ISlice [])]\<rparr>, None)
   \<and> snd (Walk odd_store (plural_definition ''odd/none''))
       = Inr ((plural_definition ''odd/none'')\<lparr>paths := []\<rparr>)
   \<and> (case SecretFetcher example_host odd_store env_export [''VAULT_SECRETS_DB=odd/none''] Map.empty of
         Inr st \<Rightarrow> map EnvKey (defs st) = [''VAULT_SECRETS_DB''] \<and> map plural (defs st) = [True]
                   \<and> map paths (defs st) = [[]] \<and> requested (trace st) = []
       | Inl stop \<Rightarrow> False)"
proof (intro conjI)
  show "Logical_List odd_store ''odd/none'' = (Some \<lparr>Data = [(''keys'', ISlice [])]\<rparr>, None)"
    by (simp add: odd_store_def)
  show "snd (Walk odd_store (plural_definition ''odd/none''))
       = Inr ((plural_definition ''odd/none'')\<lparr>paths := []\<rparr>)"
    by code_simp
  show "case SecretFetcher example_host odd_store env_export [''VAULT_SECRETS_DB=odd/none''] Map.empty of
         Inr st \<Rightarrow> map EnvKey (defs st) = [''VAULT_SECRETS_DB''] \<and> map plural (defs st) = [True]
                   \<and> map paths (defs st) = [[]] \<and> requested (trace st) = []
       | Inl stop \<Rightarrow> False"
    by code_simp
qed


section \<open>Resolving the destination\<close>

text \<open>
  Claim C5. The destination of a definition is the value of the first of three variables
  that is not empty: \<open>DAYTONA_SECRET_DESTINATION_\<close> followed by the identifier as given,
  then by the identifier in lower case, then by the identifier in upper case. When the
  variable of the identifier as given has a value, that value is taken whatever the
  other two hold; when all three are empty the definition keeps its (empty) destination.
  No other field changes.
\<close>

theorem resolve_destination_precedence:
  "(Getenv envs (''DAYTONA_SECRET_DESTINATION_'' @ SecretID sd) \<noteq> '''' \<longrightarrow>
      resolve_destination envs sd
        = sd\<lparr>OutputDestination := Getenv envs (''DAYTONA_SECRET_DESTINATION_'' @ SecretID sd)\<rparr>)
   \<and> (Getenv envs (''DAYTONA_SECRET_DESTINATION_'' @ SecretID sd) = ''''
      \<and> Getenv envs (''DAYTONA_SECRET_DESTINATION_'' @ ToLower (SecretID sd)) \<noteq> '''' \<longrightarrow>
      resolve_destination envs sd
        = sd\<lparr>OutputDestination := Getenv envs (''DAYTONA_SECRET_DESTINATION_'' @ ToLower (SecretID sd))\<rparr>)
   \<and> (Getenv envs (''DAYTONA_SECRET_DESTINATION_'' @ SecretID sd) = ''''
      \<and> Getenv envs (''DAYTONA_SECRET_DESTINATION_'' @ ToLower (SecretID sd)) = ''''
      \<and> Getenv envs (''DAYTONA_SECRET_DESTINATION_'' @ ToUpper (SecretID sd)) \<noteq> '''' \<longrightarrow>
      resolve_destination envs sd
        = sd\<lparr>OutputDestination := Getenv envs (''DAYTONA_SECRET_DESTINATION_'' @ ToUpper (SecretID sd))\<rparr>)
   \<and> (Getenv envs (''DAYTONA_SECRET_DESTINATION_'' @ SecretID sd) = ''''
      \<and> Getenv envs (''DAYTONA_SECRET_DESTINATION_'' @ ToLower (SecretID sd)) = ''''
      \<and> Getenv envs (''DAYTONA_SECRET_DESTINATION_'' @ ToUpper (SecretID sd)) = '''' \<longrightarrow>
      resolve_destination envs sd = sd)"
  unfolding resolve_destination_def secretDestinationPrefix_def Let_def by simp

theorem resolve_destination_precedence_witness:
  "OutputDestination (resolve_destination [''DAYTONA_SECRET_DESTINATION_foo=/tmp/x''] (named ''foo'')) = ''/tmp/x''
   \<and> OutputDestination (resolve_destination [''DAYTONA_SECRET_DESTINATION_foo=/tmp/x''] (named ''Foo'')) = ''/tmp/x''
   \<and> OutputDestination (resolve_destination [''DAYTONA_SECRET_DESTINATION_FOO=/tmp/y''] (named ''Foo'')) = ''/tmp/y''
   \<and> OutputDestination (resolve_destination
         [''DAYTONA_SECRET_DESTINATION_foo=/tmp/x'', ''DAYTONA_SECRET_DESTINATION_FOO=/tmp/y'',
          ''DAYTONA_SECRET_DESTINATION_Foo=/tmp/z''] (named ''Foo'')) = ''/tmp/z''
   \<and> resolve_destination [''HOME=/root''] (named ''Foo'') = named ''Foo''"
proof -
  let ?x = "[''DAYTONA_SECRET_DESTINATION_foo=/tmp/x'']"
  let ?y = "[''DAYTONA_SECRET_DESTINATION_FOO=/tmp/y'']"
  let ?all = "[''DAYTONA_SECRET_DESTINATION_foo=/tmp/x'', ''DAYTONA_SECRET_DESTINATION_FOO=/tmp/y'',
          ''DAYTONA_SECRET_DESTINATION_Foo=/tmp/z'']"
  have id: "SecretID (named ''foo'') = ''foo''" "SecretID (named ''Foo'') = ''Foo''"
    by (simp_all add: named_def)
  have lo: "ToLower ''Foo'' = ''foo''" and up: "ToUpper ''Foo'' = ''FOO''" by code_simp+
  have a: "Getenv ?x (''DAYTONA_SECRET_DESTINATION_'' @ ''foo'') = ''/tmp/x''" by code_simp
  have b: "Getenv ?x (''DAYTONA_SECRET_DESTINATION_'' @ ''Foo'') = ''''" by code_simp
  have c: "Getenv ?y (''DAYTONA_SECRET_DESTINATION_'' @ ''Foo'') = ''''"
    "Getenv ?y (''DAYTONA_SECRET_DESTINATION_'' @ ''foo'') = ''''"
    "Getenv ?y (''DAYTONA_SECRET_DESTINATION_'' @ ''FOO'') = ''/tmp/y''" by code_simp+
  have d: "Getenv ?all (''DAYTONA_SECRET_DESTINATION_'' @ ''Foo'') = ''/tmp/z''" by code_simp
  have e: "Getenv [''HOME=/root''] (''DAYTONA_SECRET_DESTINATION_'' @ ''Foo'') = ''''"
    "Getenv [''HOME=/root''] (''DAYTONA_SECRET_DESTINATION_'' @ ''foo'') = ''''"
    "Getenv [''HOME=/root''] (''DAYTONA_SECRET_DESTINATION_'' @ ''FOO'') = ''''" by code_simp+
  from resolve_destination_precedence[of ?x "named ''foo''"] a
  have 1: "OutputDestination (resolve_destination ?x (named ''foo'')) = ''/tmp/x''"
    by (simp add: id)
  from resolve_destination_precedence[of ?x "named ''Foo''"] a b
  have 2: "OutputDestination (resolve_destination ?x (named ''Foo'')) = ''/tmp/x''"
    by (simp add: id lo)
  from resolve_destination_precedence[of ?y "named ''Foo''"] c
  have 3: "OutputDestination (resolve_destination ?y (named ''Foo'')) = ''/tmp/y''"
    by (simp add: id lo up)
  from resolve_destination_precedence[of ?all "named ''Foo''"] d
  have 4: "OutputDestination (resolve_destination ?all (named ''Foo'')) = ''/tmp/z''"
    by (simp add: id)
  from resolve_destination_precedence[of "[''HOME=/root'']" "named ''Foo''"] e
  have 5: "resolve_destination [''HOME=/root''] (named ''Foo'') = named ''Foo''"
    by (simp add: id lo up)
  from 1 2 3 4 5 show ?thesis by (intro conjI)
qed


section \<open>Discovering definitions\<close>

lemma singular_prefix: "HasPrefix (''VAULT_SECRET_'' @ ident) secretStoragePathPrefix"
  by (simp add: HasPrefix_def secretStoragePathPrefix_def)

lemma plural_prefix:
  "HasPrefix (''VAULT_SECRETS_'' @ ident) secretsStoragePathPrefix"
  "\<not> HasPrefix (''VAULT_SECRETS_'' @ ident) secretStoragePathPrefix"
  by (simp_all add: HasPrefix_def secretsStoragePathPrefix_def secretStoragePathPrefix_def)

lemma HasPrefix_iff: "HasPrefix s p \<longleftrightarrow> (\<exists>rest. s = p @ rest)"
  unfolding HasPrefix_def by (metis append_eq_conv_conj append_take_drop_id)

lemma TrimPrefix_append: "TrimPrefix (p @ rest) p = rest"
  by (simp add: TrimPrefix_def HasPrefix_def)

text \<open>
  Claim C2, as the code has it. An entry whose variable has an empty value yields no
  definition. An entry whose variable has a value and whose name is \<open>VAULT_SECRET_\<close>
  followed by \<open>id\<close> yields the definition with that name, \<open>secretID = id\<close>, the value as
  apex, \<open>paths = [apex]\<close> and \<open>plural = false\<close>; a name \<open>VAULT_SECRETS_\<close> followed by
  \<open>id\<close> yields \<open>secretID = id\<close>, \<open>plural = true\<close> and empty \<open>paths\<close>; a name with
  neither prefix yields no definition.
\<close>

theorem define_secret_by_prefix:
  "(Getenv envs (Split_first env) = '''' \<longrightarrow> define_secret envs env = None)
   \<and> (\<forall>ident. Split_first env = ''VAULT_SECRET_'' @ ident \<and> Getenv envs (Split_first env) \<noteq> '''' \<longrightarrow>
        define_secret envs env =
          Some \<lparr>EnvKey = Split_first env, SecretID = ident,
                SecretApex = Getenv envs (Split_first env), OutputDestination = '''',
                secrets = [], plural = False, paths = [Getenv envs (Split_first env)]\<rparr>)
   \<and> (\<forall>ident. Split_first env = ''VAULT_SECRETS_'' @ ident \<and> Getenv envs (Split_first env) \<noteq> '''' \<longrightarrow>
        define_secret envs env =
          Some \<lparr>EnvKey = Split_first env, SecretID = ident,
                SecretApex = Getenv envs (Split_first env), OutputDestination = '''',
                secrets = [], plural = True, paths = []\<rparr>)
   \<and> ((\<forall>ident. Split_first env \<noteq> ''VAULT_SECRET_'' @ ident)
        \<and> (\<forall>ident. Split_first env \<noteq> ''VAULT_SECRETS_'' @ ident) \<longrightarrow>
        define_secret envs env = None)"
proof -
  define k where "k = Split_first env"
  have none: "define_secret envs env = None" if "Getenv envs k = ''''"
    using that by (simp add: define_secret_def k_def)
  have single: "define_secret envs env =
          Some \<lparr>EnvKey = k, SecretID = ident, SecretApex = Getenv envs k, OutputDestination = '''',
                secrets = [], plural = False, paths = [Getenv envs k]\<rparr>"
    if k: "k = ''VAULT_SECRET_'' @ ident" and v: "Getenv envs k \<noteq> ''''" for ident
  proof -
    have "HasPrefix k secretStoragePathPrefix"
      unfolding k by (rule singular_prefix)
    moreover have "TrimPrefix k secretStoragePathPrefix = ident"
      unfolding k secretStoragePathPrefix_def by (rule TrimPrefix_append)
    ultimately show ?thesis
      unfolding define_secret_def Let_def k_def[symmetric] using v by simp
  qed
  have several: "define_secret envs env =
          Some \<lparr>EnvKey = k, SecretID = ident, SecretApex = Getenv envs k, OutputDestination = '''',
                secrets = [], plural = True, paths = []\<rparr>"
    if k: "k = ''VAULT_SECRETS_'' @ ident" and v: "Getenv envs k \<noteq> ''''" for ident
  proof -
    have "HasPrefix k secretsStoragePathPrefix" and "\<not> HasPrefix k secretStoragePathPrefix"
      unfolding k by (rule plural_prefix)+
    moreover have "TrimPrefix k secretsStoragePathPrefix = ident"
      unfolding k secretsStoragePathPrefix_def by (rule TrimPrefix_append)
    ultimately show ?thesis
      unfolding define_secret_def Let_def k_def[symmetric] using v by simp
  qed
  have neither: "define_secret envs env = None"
    if "\<forall>ident. k \<noteq> ''VAULT_SECRET_'' @ ident" and "\<forall>ident. k \<noteq> ''VAULT_SECRETS_'' @ ident"
  proof -
    from that have "\<not> HasPrefix k secretStoragePathPrefix"
      and "\<not> HasPrefix k secretsStoragePathPrefix"
      by (simp_all add: HasPrefix_iff secretStoragePathPrefix_def secretsStoragePathPrefix_def)
    then show ?thesis
      unfolding define_secret_def Let_def k_def[symmetric] by simp
  qed
  from none single several neither show ?thesis
    unfolding k_def by blast
qed

theorem define_secret_by_prefix_witness:
  "define_secret [''VAULT_SECRET_API=secret/app/api'', ''VAULT_SECRETS_DB=secret/app/db'', ''HOME=/root'', ''VAULT_SECRET_X='']
       ''VAULT_SECRET_API=secret/app/api''
     = Some \<lparr>EnvKey = ''VAULT_SECRET_API'', SecretID = ''API'', SecretApex = ''secret/app/api'',
             OutputDestination = '''', secrets = [], plural = False, paths = [''secret/app/api'']\<rparr>
   \<and> define_secret [''VAULT_SECRET_API=secret/app/api'', ''VAULT_SECRETS_DB=secret/app/db'', ''HOME=/root'', ''VAULT_SECRET_X='']
       ''VAULT_SECRETS_DB=secret/app/db''
     = Some \<lparr>EnvKey = ''VAULT_SECRETS_DB'', SecretID = ''DB'', SecretApex = ''secret/app/db'',
             OutputDestination = '''', secrets = [], plural = True, paths = []\<rparr>
   \<and> define_secret [''VAULT_SECRET_API=secret/app/api'', ''VAULT_SECRETS_DB=secret/app/db'', ''HOME=/root'', ''VAULT_SECRET_X='']
       ''HOME=/root'' = None
   \<and> define_secret [''VAULT_SECRET_API=secret/app/api'', ''VAULT_SECRETS_DB=secret/app/db'', ''HOME=/root'', ''VAULT_SECRET_X='']
       ''VAULT_SECRET_X='' = None"
proof -
  let ?envs = "[''VAULT_SECRET_API=secret/app/api'', ''VAULT_SECRETS_DB=secret/app/db'', ''HOME=/root'', ''VAULT_SECRET_X='']"
  have k1: "Split_first ''VAULT_SECRET_API=secret/app/api'' = ''VAULT_SECRET_'' @ ''API''"
    and k2: "Split_first ''VAULT_SECRETS_DB=secret/app/db'' = ''VAULT_SECRETS_'' @ ''DB''"
    and k3: "Split_first ''HOME=/root'' = ''HOME''"
    and k4: "Split_first ''VAULT_SECRET_X='' = ''VAULT_SECRET_X''"
    by code_simp+
  have v1: "Getenv ?envs (''VAULT_SECRET_'' @ ''API'') = ''secret/app/api''"
    and v2: "Getenv ?envs (''VAULT_SECRETS_'' @ ''DB'') = ''secret/app/db''"
    and v4: "Getenv ?envs ''VAULT_SECRET_X'' = ''''"
    by code_simp+
  have n3: "(\<forall>ident. ''HOME'' \<noteq> ''VAULT_SECRET_'' @ ident) \<and> (\<forall>ident. ''HOME'' \<noteq> ''VAULT_SECRETS_'' @ ident)"
    by simp
  from define_secret_by_prefix[of ?envs "''VAULT_SECRET_API=secret/app/api''"] k1 v1
  have 1: "define_secret ?envs ''VAULT_SECRET_API=secret/app/api''
     = Some \<lparr>EnvKey = ''VAULT_SECRET_API'', SecretID = ''API'', SecretApex = ''secret/app/api'',
             OutputDestination = '''', secrets = [], plural = False, paths = [''secret/app/api'']\<rparr>"
    by simp
  from define_secret_by_prefix[of ?envs "''VAULT_SECRETS_DB=secret/app/db''"] k2 v2
  have 2: "define_secret ?envs ''VAULT_SECRETS_DB=secret/app/db''
     = Some \<lparr>EnvKey = ''VAULT_SECRETS_DB'', SecretID = ''DB'', SecretApex = ''secret/app/db'',
             OutputDestination = '''', secrets = [], plural = True, paths = []\<rparr>"
    by simp
  from define_secret_by_prefix[of ?envs "''HOME=/root''"] k3 n3
  have 3: "define_secret ?envs ''HOME=/root'' = None"
    by simp
  from define_secret_by_prefix[of ?envs "''VAULT_SECRET_X=''"] k4 v4
  have 4: "define_secret ?envs ''VAULT_SECRET_X='' = None"
    by simp
  from 1 2 3 4 show ?thesis by (intro conjI)
qed

text \<open>
  Claim C2 as stated fails for a variable that is set to the empty string: its name has
  the singular prefix, and no definition is built for it.
\<close>

theorem empty_value_yields_no_definition:
  "Split_first ''VAULT_SECRET_X='' = ''VAULT_SECRET_'' @ ''X''
   \<and> define_secret [''VAULT_SECRET_X=''] ''VAULT_SECRET_X='' = None
   \<and> (case SecretFetcher example_host example_store env_export [''VAULT_SECRET_X=''] Map.empty of
         Inr st \<Rightarrow> defs st = [] \<and> requested (trace st) = []
       | Inl stop \<Rightarrow> False)"
  by code_simp


section \<open>The validation gate\<close>

lemma same_run_refl: "same_run l st st"
  by (simp add: same_run_def)

lemma same_run_emit: "same_run l st1 st2 \<Longrightarrow> same_run l (emit evs st1) (emit evs st2)"
  by (simp add: same_run_def)

lemma same_run_log: "same_run l (emit [Logged l] st) st"
  by (simp add: same_run_def)

lemma same_run_request:
  "same_run l st1 st2 \<Longrightarrow> same_run l (AsyncRequestKeyPath p st1) (AsyncRequestKeyPath p st2)"
  by (simp add: same_run_def AsyncRequestKeyPath_def)

lemma same_run_request_paths:
  "same_run l st1 st2 \<Longrightarrow> same_run l (request_paths ps st1) (request_paths ps st2)"
  by (induction ps arbitrary: st1 st2) (simp_all add: same_run_request)

lemma same_run_read:
  "same_run l st1 st2 \<Longrightarrow>
   rel_option (rel_prod (=) (same_run l)) (ReadSecretResult h client st1) (ReadSecretResult h client st2)"
  by (cases "outstanding st2")
     (auto simp: same_run_def ReadSecretResult_def Let_def split: prod.splits)

lemma same_run_drain:
  "same_run l st1 st2 \<Longrightarrow>
   rel_sum (rel_prod (=) (same_run l)) (rel_prod (=) (same_run l))
     (drain_results h client n sd st1) (drain_results h client n sd st2)"
proof (induction n arbitrary: sd st1 st2)
  case 0
  then show ?case by simp
next
  case (Suc n)
  from same_run_read[OF Suc.prems, of h client]
  show ?case
  proof (cases rule: option.rel_cases)
    case None
    with Suc.prems show ?thesis by simp
  next
    case (Some x y)
    obtain r s1 where x: "x = (r, s1)" by (cases x)
    obtain r' s2 where y: "y = (r', s2)" by (cases y)
    from Some(3) have r: "r' = r" and s: "same_run l s1 s2" by (simp_all add: x y)
    show ?thesis
    proof (cases "merge_result sd r")
      case (Inl a)
      with Some(1,2) s show ?thesis by (simp add: x y r)
    next
      case (Inr sd1)
      with Some(1,2) Suc.IH[OF s, of sd1] show ?thesis by (simp add: x y r)
    qed
  qed
qed

lemma same_run_expand:
  "same_run l st1 st2 \<Longrightarrow>
   rel_sum (rel_prod (=) (same_run l)) (rel_prod (=) (same_run l))
     (expand client sd st1) (expand client sd st2)"
  by (auto simp: expand_def same_run_emit split: prod.splits sum.splits)

lemma same_run_env:
  assumes "same_run l st1 st2"
  shows "rel_sum (rel_prod (=) (same_run l)) (same_run l)
     (SecretFetcher_env h client config envs st1 env) (SecretFetcher_env h client config envs st2 env)"
proof (cases "define_secret envs env")
  case None
  with assms show ?thesis by (simp add: SecretFetcher_env_def)
next
  case (Some sd0)
  define sd where "sd = resolve_destination envs sd0"
  show ?thesis
  proof (cases "no_output_method config sd")
    case True
    with Some assms show ?thesis
      by (simp add: SecretFetcher_env_def sd_def same_run_emit)
  next
    case False
    from same_run_expand[OF assms, of client sd]
    show ?thesis
    proof (cases rule: rel_sum.cases)
      case (1 x y)
      with Some False show ?thesis by (simp add: SecretFetcher_env_def sd_def)
    next
      case (2 x y)
      obtain sd1 s1 where x: "x = (sd1, s1)" by (cases x)
      obtain sd1' s2 where y: "y = (sd1', s2)" by (cases y)
      from 2(3) have e: "sd1' = sd1" and s: "same_run l s1 s2" by (simp_all add: x y)
      from same_run_drain[OF same_run_request_paths[OF s], of h client "length (paths sd1)" sd1 "paths sd1"]
      have "rel_sum (rel_prod (=) (same_run l)) (same_run l)
         (case drain_results h client (length (paths sd1)) sd1 (request_paths (paths sd1) s1) of
            Inl stop \<Rightarrow> Inl stop | Inr (sd2, st2) \<Rightarrow> Inr (st2\<lparr>defs := defs st2 @ [sd2]\<rparr>))
         (case drain_results h client (length (paths sd1)) sd1 (request_paths (paths sd1) s2) of
            Inl stop \<Rightarrow> Inl stop | Inr (sd2, st2) \<Rightarrow> Inr (st2\<lparr>defs := defs st2 @ [sd2]\<rparr>))"
        by (cases rule: rel_sum.cases) (auto simp: same_run_def)
      with Some False 2(1,2) show ?thesis
        by (simp add: SecretFetcher_env_def sd_def x y e)
    qed
  qed
qed

lemma same_run_envs:
  "same_run l st1 st2 \<Longrightarrow>
   rel_sum (rel_prod (=) (same_run l)) (same_run l)
     (SecretFetcher_envs h client config envs st1 es) (SecretFetcher_envs h client config envs st2 es)"
proof (induction es arbitrary: st1 st2)
  case Nil
  then show ?case by simp
next
  case (Cons e es)
  from same_run_env[OF Cons.prems, of h client config envs e]
  show ?case
  proof (cases rule: rel_sum.cases)
    case (1 x y)
    then show ?thesis by simp
  next
    case (2 x y)
    with Cons.IH[OF 2(3)] show ?thesis by simp
  qed
qed

lemma SecretFetcher_envs_append:
  "SecretFetcher_envs h client config envs st (xs @ ys) =
     (case SecretFetcher_envs h client config envs st xs of
        Inl stop \<Rightarrow> Inl stop
      | Inr st' \<Rightarrow> SecretFetcher_envs h client config envs st' ys)"
  by (induction xs arbitrary: st) (simp_all split: sum.splits)

lemma gate_skips:
  assumes "define_secret envs env = Some sd0" and "SecretPayloadPath config = ''''"
    and "\<not> SecretEnv config" and "OutputDestination (resolve_destination envs sd0) = ''''"
  shows "SecretFetcher_env h client config envs st env
           = Inr (st\<lparr>trace := trace st @ [Logged (NoOutputMethod (EnvKey sd0))]\<rparr>)"
proof -
  have "EnvKey (resolve_destination envs sd0) = EnvKey sd0"
    by (simp add: resolve_destination_def Let_def)
  with assms show ?thesis
    by (simp add: SecretFetcher_env_def no_output_method_def emit_def)
qed

lemma same_run_setEnv:
  "same_run l st1 st2 \<Longrightarrow>
   same_run l (fst (setEnvSecrets_range kvs st1)) (fst (setEnvSecrets_range kvs st2))"
proof (induction kvs arbitrary: st1 st2)
  case Nil
  then show ?case by simp
next
  case (Cons kv kvs)
  obtain k v where kv: "kv = (k, v)" by (cases kv)
  from Cons.IH[OF same_run_emit[OF Cons.prems]] Cons.prems show ?case
    by (simp add: kv split: option.splits)
qed

lemma same_run_WriteFile:
  "same_run l st1 st2 \<Longrightarrow> rel_sum (=) (same_run l) (WriteFile h p b st1) (WriteFile h p b st2)"
  by (simp add: WriteFile_def same_run_def split: option.splits)

lemma same_run_writeJSON:
  assumes "same_run l st1 st2"
  shows "rel_sum (=) (same_run l) (writeJSONSecrets h m p st1) (writeJSONSecrets h m p st2)"
proof (cases "json_Marshal h m")
  case (Inl e)
  then show ?thesis by (simp add: writeJSONSecrets_def)
next
  case (Inr payload)
  from same_run_WriteFile[OF assms, of h p payload] show ?thesis
    by (cases rule: rel_sum.cases) (simp_all add: writeJSONSecrets_def Inr same_run_emit)
qed

lemma same_run_writeSecrets_range:
  "same_run l st1 st2 \<Longrightarrow>
   same_run l (fst (writeSecrets_range h dest kvs st1)) (fst (writeSecrets_range h dest kvs st2))"
proof (induction kvs arbitrary: st1 st2)
  case Nil
  then show ?case by simp
next
  case (Cons kv kvs)
  obtain k v where kv: "kv = (k, v)" by (cases kv)
  from same_run_WriteFile[OF Cons.prems, of h dest v] show ?case
  proof (cases rule: rel_sum.cases)
    case (1 x y)
    with Cons.prems show ?thesis by (simp add: kv)
  next
    case (2 x y)
    with Cons.IH[OF same_run_emit[OF 2(3)]] show ?thesis by (simp add: kv)
  qed
qed

lemma same_run_destination:
  assumes "same_run l st1 st2"
  shows "same_run l (fst (writeSecretsToDestination h sd st1)) (fst (writeSecretsToDestination h sd st2))"
proof (cases "plural sd")
  case True
  from same_run_writeJSON[OF assms, of h "secrets sd" "OutputDestination sd"] show ?thesis
    by (cases rule: rel_sum.cases) (use True assms in \<open>simp_all add: writeSecretsToDestination_def\<close>)
next
  case False
  with same_run_writeSecrets_range[OF assms] show ?thesis
    by (simp add: writeSecretsToDestination_def)
qed

lemma same_run_output_definition:
  assumes "same_run l st1 st2"
  shows "rel_sum (rel_prod (=) (same_run l)) (same_run l)
           (output_definition h config st1 sd) (output_definition h config st2 sd)"
proof -
  define a1 where "a1 = (if SecretEnv config then fst (setEnvSecrets h (secrets sd) st1) else st1)"
  define a2 where "a2 = (if SecretEnv config then fst (setEnvSecrets h (secrets sd) st2) else st2)"
  define b1 where "b1 = (if OutputDestination sd \<noteq> '''' then fst (writeSecretsToDestination h sd a1) else a1)"
  define b2 where "b2 = (if OutputDestination sd \<noteq> '''' then fst (writeSecretsToDestination h sd a2) else a2)"
  have a: "same_run l a1 a2"
    unfolding a1_def a2_def using assms by (simp add: setEnvSecrets_def same_run_setEnv)
  have b: "same_run l b1 b2"
    unfolding b1_def b2_def using a by (simp add: same_run_destination)
  have o1: "output_definition h config st1 sd =
      (if SecretPayloadPath config \<noteq> '''' then
           (case writeJSONSecrets h (secrets sd) (SecretPayloadPath config) b1 of
              Inl err \<Rightarrow> Inl (FatalPayload err, b1) | Inr st3 \<Rightarrow> Inr st3)
       else Inr b1)"
    unfolding output_definition_def Let_def a1_def b1_def by (rule refl)
  have o2: "output_definition h config st2 sd =
      (if SecretPayloadPath config \<noteq> '''' then
           (case writeJSONSecrets h (secrets sd) (SecretPayloadPath config) b2 of
              Inl err \<Rightarrow> Inl (FatalPayload err, b2) | Inr st3 \<Rightarrow> Inr st3)
       else Inr b2)"
    unfolding output_definition_def Let_def a2_def b2_def by (rule refl)
  show ?thesis
  proof (cases "SecretPayloadPath config \<noteq> ''''")
    case False
    with b show ?thesis by (simp add: o1 o2)
  next
    case True
    from same_run_writeJSON[OF b, of h "secrets sd" "SecretPayloadPath config"] show ?thesis
      by (cases rule: rel_sum.cases) (use True b in \<open>simp_all add: o1 o2\<close>)
  qed
qed

lemma same_run_output_definitions:
  "same_run l st1 st2 \<Longrightarrow>
   rel_sum (rel_prod (=) (same_run l)) (same_run l)
     (output_definitions h config st1 sds) (output_definitions h config st2 sds)"
proof (induction sds arbitrary: st1 st2)
  case Nil
  then show ?case by simp
next
  case (Cons sd sds)
  from same_run_output_definition[OF Cons.prems, of h config sd]
  show ?case
  proof (cases rule: rel_sum.cases)
    case (1 x y)
    then show ?thesis by simp
  next
    case (2 x y)
    with Cons.IH[OF 2(3)] show ?thesis by simp
  qed
qed

lemma skipped_entry_leaves_loop:
  assumes "define_secret envs env = Some sd0" and "SecretPayloadPath config = ''''"
    and "\<not> SecretEnv config" and "OutputDestination (resolve_destination envs sd0) = ''''"
  shows "rel_sum (rel_prod (=) (same_run (NoOutputMethod (EnvKey sd0)))) (same_run (NoOutputMethod (EnvKey sd0)))
           (SecretFetcher_envs h client config envs st (pre @ env # post))
           (SecretFetcher_envs h client config envs st (pre @ post))"
proof (cases "SecretFetcher_envs h client config envs st pre")
  case (Inl stop)
  then show ?thesis
    by (cases stop) (simp add: SecretFetcher_envs_append same_run_refl)
next
  case (Inr st1)
  let ?l = "NoOutputMethod (EnvKey sd0)"
  have "same_run ?l (st1\<lparr>trace := trace st1 @ [Logged ?l]\<rparr>) st1"
    using same_run_log[of ?l st1] by (simp add: emit_def)
  from same_run_envs[OF this, of h client config envs post]
  show ?thesis
    by (simp add: SecretFetcher_envs_append Inr gate_skips[OF assms])
qed

text \<open>
  Claim C8. With no payload path and no export to the environment, an entry whose
  definition resolves to no destination is skipped: the loop body returns normally
  (nothing fatal), the only thing it does is to log the notice (so no listing and no
  request is made for it), and the definition is not added to the ones that are written
  out. The other entries are processed as if the entry were not in the list: up to that
  log line, the loop over the entries, and the output that follows it, end in the same
  way with the same definitions, requests, files and events.
\<close>

theorem no_output_method_skips:
  assumes "define_secret envs env = Some sd0" and "SecretPayloadPath config = ''''"
    and "\<not> SecretEnv config" and "OutputDestination (resolve_destination envs sd0) = ''''"
  shows "SecretFetcher_env h client config envs st env
           = Inr (st\<lparr>trace := trace st @ [Logged (NoOutputMethod (EnvKey sd0))]\<rparr>)
       \<and> rel_sum (rel_prod (=) (same_run (NoOutputMethod (EnvKey sd0)))) (same_run (NoOutputMethod (EnvKey sd0)))
           (SecretFetcher_envs h client config envs st (pre @ env # post))
           (SecretFetcher_envs h client config envs st (pre @ post))
       \<and> rel_sum (rel_prod (=) (same_run (NoOutputMethod (EnvKey sd0)))) (same_run (NoOutputMethod (EnvKey sd0)))
           (case SecretFetcher_envs h client config envs st (pre @ env # post) of
              Inl stop \<Rightarrow> Inl stop | Inr st' \<Rightarrow> output_definitions h config st' (defs st'))
           (case SecretFetcher_envs h client config envs st (pre @ post) of
              Inl stop \<Rightarrow> Inl stop | Inr st' \<Rightarrow> output_definitions h config st' (defs st'))"
proof (intro conjI)
  show "SecretFetcher_env h client config envs st env
           = Inr (st\<lparr>trace := trace st @ [Logged (NoOutputMethod (EnvKey sd0))]\<rparr>)"
    by (rule gate_skips[OF assms])
  let ?l = "NoOutputMethod (EnvKey sd0)"
  show loop: "rel_sum (rel_prod (=) (same_run ?l)) (same_run ?l)
           (SecretFetcher_envs h client config envs st (pre @ env # post))
           (SecretFetcher_envs h client config envs st (pre @ post))"
    by (rule skipped_entry_leaves_loop[OF assms])
  from loop show "rel_sum (rel_prod (=) (same_run ?l)) (same_run ?l)
           (case SecretFetcher_envs h client config envs st (pre @ env # post) of
              Inl stop \<Rightarrow> Inl stop | Inr st' \<Rightarrow> output_definitions h config st' (defs st'))
           (case SecretFetcher_envs h client config envs st (pre @ post) of
              Inl stop \<Rightarrow> Inl stop | Inr st' \<Rightarrow> output_definitions h config st' (defs st'))"
  proof (cases rule: rel_sum.cases)
    case (1 x y)
    then show ?thesis by simp
  next
    case (2 x y)
    from 2(3) have "defs x = defs y" by (simp add: same_run_def)
    with same_run_output_definitions[OF 2(3), of h config "defs y"] 2(1,2) show ?thesis by simp
  qed
qed

theorem no_output_method_skips_witness:
  "define_secret [''VAULT_SECRET_X=secret/x'', ''VAULT_SECRET_API=secret/app/api'',
                  ''DAYTONA_SECRET_DESTINATION_API=/out/api.txt''] ''VAULT_SECRET_X=secret/x''
     = Some x_definition
   \<and> SecretFetcher_env example_host example_store no_sinks
        [''VAULT_SECRET_X=secret/x'', ''VAULT_SECRET_API=secret/app/api'',
         ''DAYTONA_SECRET_DESTINATION_API=/out/api.txt''] start_state ''VAULT_SECRET_X=secret/x''
     = Inr (start_state\<lparr>trace := trace start_state @ [Logged (NoOutputMethod ''VAULT_SECRET_X'')]\<rparr>)
   \<and> rel_sum (rel_prod (=) (same_run (NoOutputMethod ''VAULT_SECRET_X''))) (same_run (NoOutputMethod ''VAULT_SECRET_X''))
        (SecretFetcher_envs example_host example_store no_sinks
           [''VAULT_SECRET_X=secret/x'', ''VAULT_SECRET_API=secret/app/api'',
            ''DAYTONA_SECRET_DESTINATION_API=/out/api.txt''] start_state
           [''VAULT_SECRET_X=secret/x'', ''VAULT_SECRET_API=secret/app/api'',
            ''DAYTONA_SECRET_DESTINATION_API=/out/api.txt''])
        (SecretFetcher_envs example_host example_store no_sinks
           [''VAULT_SECRET_X=secret/x'', ''VAULT_SECRET_API=secret/app/api'',
            ''DAYTONA_SECRET_DESTINATION_API=/out/api.txt''] start_state
           [''VAULT_SECRET_API=secret/app/api'', ''DAYTONA_SECRET_DESTINATION_API=/out/api.txt''])
   \<and> (case SecretFetcher example_host example_store no_sinks
              [''VAULT_SECRET_X=secret/x'', ''VAULT_SECRET_API=secret/app/api'',
               ''DAYTONA_SECRET_DESTINATION_API=/out/api.txt''] Map.empty of
         Inr st \<Rightarrow> map EnvKey (defs st) = [''VAULT_SECRET_API'']
                   \<and> requested (trace st) = [''secret/app/api'']
                   \<and> files st ''/out/api.txt'' = Some ''abc123''
       | Inl stop \<Rightarrow> False)"
proof -
  let ?envs = "[''VAULT_SECRET_X=secret/x'', ''VAULT_SECRET_API=secret/app/api'',
                ''DAYTONA_SECRET_DESTINATION_API=/out/api.txt'']"
  let ?post = "[''VAULT_SECRET_API=secret/app/api'', ''DAYTONA_SECRET_DESTINATION_API=/out/api.txt'']"
  have h1: "define_secret ?envs ''VAULT_SECRET_X=secret/x'' = Some x_definition" by code_simp
  have h2: "SecretPayloadPath no_sinks = ''''" by (simp add: no_sinks_def)
  have h3: "\<not> SecretEnv no_sinks" by (simp add: no_sinks_def)
  have h4: "OutputDestination (resolve_destination ?envs x_definition) = ''''" by code_simp
  have k: "EnvKey x_definition = ''VAULT_SECRET_X''" by (simp add: x_definition_def)
  have run: "case SecretFetcher example_host example_store no_sinks ?envs Map.empty of
         Inr st \<Rightarrow> map EnvKey (defs st) = [''VAULT_SECRET_API'']
                   \<and> requested (trace st) = [''secret/app/api'']
                   \<and> files st ''/out/api.txt'' = Some ''abc123''
       | Inl stop \<Rightarrow> False"
    by code_simp
  note inst = no_output_method_skips[OF h1 h2 h3 h4, of example_host example_store start_state "[]" ?post]
  from inst have a: "SecretFetcher_env example_host example_store no_sinks ?envs start_state
        ''VAULT_SECRET_X=secret/x''
     = Inr (start_state\<lparr>trace := trace start_state @ [Logged (NoOutputMethod ''VAULT_SECRET_X'')]\<rparr>)"
    unfolding k by (rule conjunct1)
  from inst have b: "rel_sum (rel_prod (=) (same_run (NoOutputMethod ''VAULT_SECRET_X'')))
        (same_run (NoOutputMethod ''VAULT_SECRET_X''))
        (SecretFetcher_envs example_host example_store no_sinks ?envs start_state ?envs)
        (SecretFetcher_envs example_host example_store no_sinks ?envs start_state ?post)"
    unfolding k append_Nil by (elim conjE)
  from h1 a b run show ?thesis by (intro conjI)
qed


section \<open>The payload file\<close>

lemma writeJSONSecrets_file:
  "writeJSONSecrets h m p st = Inr st' \<Longrightarrow>
   \<exists>json. json_Marshal h m = Inr json \<and> files st' p = Some json \<and> defs st' = defs st"
  by (auto simp: writeJSONSecrets_def WriteFile_def split: sum.splits option.splits)

lemma output_definition_payload:
  assumes "SecretPayloadPath config \<noteq> ''''" and "output_definition h config st sd = Inr st'"
  shows "\<exists>json. json_Marshal h (secrets sd) = Inr json \<and> files st' (SecretPayloadPath config) = Some json"
  using assms
  by (auto simp: output_definition_def Let_def split: sum.splits dest!: writeJSONSecrets_file)

lemma output_definitions_append:
  "output_definitions h config st (xs @ ys) =
     (case output_definitions h config st xs of
        Inl stop \<Rightarrow> Inl stop
      | Inr st' \<Rightarrow> output_definitions h config st' ys)"
  by (induction xs arbitrary: st) (simp_all split: sum.splits)

lemma output_definitions_snoc:
  assumes "SecretPayloadPath config \<noteq> ''''" and "output_definitions h config st (ds @ [d]) = Inr st'"
  shows "\<exists>json. json_Marshal h (secrets d) = Inr json \<and> files st' (SecretPayloadPath config) = Some json"
proof -
  from assms(2) obtain st1 where "output_definitions h config st ds = Inr st1"
    and "output_definition h config st1 d = Inr st'"
    by (auto simp: output_definitions_append split: sum.splits)
  from output_definition_payload[OF assms(1) this(2)] show ?thesis .
qed

lemma setEnvSecrets_range_defs: "defs (fst (setEnvSecrets_range kvs st)) = defs st"
  by (induction kvs st rule: setEnvSecrets_range.induct) (auto split: option.splits)

lemma WriteFile_defs: "WriteFile h p b st = Inr st' \<Longrightarrow> defs st' = defs st"
  by (auto simp: WriteFile_def split: option.splits)

lemma writeSecrets_range_defs: "defs (fst (writeSecrets_range h dest kvs st)) = defs st"
proof (induction kvs arbitrary: st)
  case Nil
  then show ?case by simp
next
  case (Cons kv kvs)
  obtain k v where kv: "kv = (k, v)" by (cases kv)
  show ?case
  proof (cases "WriteFile h dest v st")
    case (Inl e)
    then show ?thesis by (simp add: kv)
  next
    case (Inr st1)
    from Cons.IH[of "emit [Logged (WroteSecretTo dest)] st1"] WriteFile_defs[OF Inr] Inr
    show ?thesis by (simp add: kv)
  qed
qed

lemma writeSecretsToDestination_defs: "defs (fst (writeSecretsToDestination h sd st)) = defs st"
  by (auto simp: writeSecretsToDestination_def writeSecrets_range_defs
           split: sum.splits dest: writeJSONSecrets_file)

lemma output_definition_defs: "output_definition h config st sd = Inr st' \<Longrightarrow> defs st' = defs st"
  by (auto simp: output_definition_def Let_def setEnvSecrets_def setEnvSecrets_range_defs
        writeSecretsToDestination_defs split: if_splits sum.splits dest!: writeJSONSecrets_file)

lemma output_definitions_defs: "output_definitions h config st sds = Inr st' \<Longrightarrow> defs st' = defs st"
proof (induction sds arbitrary: st)
  case Nil
  then show ?case by simp
next
  case (Cons sd sds)
  then show ?case
    by (auto split: sum.splits dest: output_definition_defs)
qed

text \<open>
  Claim C7. With a payload path configured and an output phase that runs to its end:
  at each definition's turn, in the order of the list, the JSON of that definition's
  secrets is what the file at the payload path holds (whatever it held before); so at the
  end the file holds the JSON of the last definition's secrets. The same holds for the
  list of definitions of a whole run of \<open>SecretFetcher\<close>.
\<close>

theorem payload_file_holds_last_definition:
  assumes "SecretPayloadPath config \<noteq> ''''"
  shows "(\<forall>st'. output_definitions h config st ds = Inr st' \<longrightarrow>
            (\<forall>ds1 d ds2. ds = ds1 @ d # ds2 \<longrightarrow>
               (\<exists>st1 json. output_definitions h config st (ds1 @ [d]) = Inr st1
                    \<and> json_Marshal h (secrets d) = Inr json
                    \<and> files st1 (SecretPayloadPath config) = Some json
                    \<and> output_definitions h config st1 ds2 = Inr st'))
            \<and> (ds \<noteq> [] \<longrightarrow>
               (\<exists>json. json_Marshal h (secrets (last ds)) = Inr json
                    \<and> files st' (SecretPayloadPath config) = Some json)))
       \<and> (\<forall>st'. SecretFetcher h client config envs fs = Inr st' \<and> defs st' \<noteq> [] \<longrightarrow>
            (\<exists>json. json_Marshal h (secrets (last (defs st'))) = Inr json
                    \<and> files st' (SecretPayloadPath config) = Some json))"
proof (intro conjI allI impI)
  fix st' ds1 d ds2
  assume run: "output_definitions h config st ds = Inr st'" and ds: "ds = ds1 @ d # ds2"
  from run have "output_definitions h config st ((ds1 @ [d]) @ ds2) = Inr st'" by (simp add: ds)
  then obtain st1 where st1: "output_definitions h config st (ds1 @ [d]) = Inr st1"
    and rest: "output_definitions h config st1 ds2 = Inr st'"
    unfolding output_definitions_append[of h config st "ds1 @ [d]" ds2]
    by (auto split: sum.splits)
  from output_definitions_snoc[OF assms st1] rest st1
  show "\<exists>st1 json. output_definitions h config st (ds1 @ [d]) = Inr st1
                    \<and> json_Marshal h (secrets d) = Inr json
                    \<and> files st1 (SecretPayloadPath config) = Some json
                    \<and> output_definitions h config st1 ds2 = Inr st'"
    by blast
next
  fix st'
  assume run: "output_definitions h config st ds = Inr st'" and "ds \<noteq> []"
  then have "output_definitions h config st (butlast ds @ [last ds]) = Inr st'" by simp
  from output_definitions_snoc[OF assms this]
  show "\<exists>json. json_Marshal h (secrets (last ds)) = Inr json
                    \<and> files st' (SecretPayloadPath config) = Some json" .
next
  fix st'
  assume a: "SecretFetcher h client config envs fs = Inr st' \<and> defs st' \<noteq> []"
  then obtain st1 where out: "output_definitions h config st1 (defs st1) = Inr st'"
    by (auto simp: SecretFetcher_def split: sum.splits)
  from output_definitions_defs[OF out] have d: "defs st1 = defs st'" by simp
  with a out have "output_definitions h config st1 (butlast (defs st') @ [last (defs st')]) = Inr st'"
    by simp
  from output_definitions_snoc[OF assms this]
  show "\<exists>json. json_Marshal h (secrets (last (defs st'))) = Inr json
                    \<and> files st' (SecretPayloadPath config) = Some json" .
qed

theorem payload_file_holds_last_definition_witness:
  "(\<exists>st'. output_definitions example_host payload_only start_state [api_fetched, db_fetched] = Inr st'
       \<and> files st' ''/out/all.json'' = Some ''{\"user\":\"u1\",\"pass\":\"p1\"}''
       \<and> (\<exists>st1. output_definitions example_host payload_only start_state [api_fetched] = Inr st1
              \<and> files st1 ''/out/all.json'' = Some ''{\"api\":\"abc123\"}''
              \<and> output_definitions example_host payload_only st1 [db_fetched] = Inr st'))
   \<and> (\<exists>st'. SecretFetcher example_host example_store payload_only
              [''VAULT_SECRET_API=secret/app/api'', ''VAULT_SECRETS_DB=secret/app/db''] Map.empty = Inr st'
         \<and> map EnvKey (defs st') = [''VAULT_SECRET_API'', ''VAULT_SECRETS_DB'']
         \<and> files st' ''/out/all.json'' = Some ''{\"user\":\"u1\",\"pass\":\"p1\"}'')"
proof -
  let ?envs = "[''VAULT_SECRET_API=secret/app/api'', ''VAULT_SECRETS_DB=secret/app/db'']"
  have p: "SecretPayloadPath payload_only \<noteq> ''''" and pp: "SecretPayloadPath payload_only = ''/out/all.json''"
    by (simp_all add: payload_only_def)
  note inst = payload_file_holds_last_definition[OF p, of example_host start_state
      "[api_fetched, db_fetched]" example_store ?envs Map.empty]
  have j1: "json_Marshal example_host (secrets api_fetched) = Inr ''{\"api\":\"abc123\"}''"
    and j2: "json_Marshal example_host (secrets db_fetched) = Inr ''{\"user\":\"u1\",\"pass\":\"p1\"}''"
    by code_simp+
  have "case output_definitions example_host payload_only start_state [api_fetched, db_fetched] of
          Inr st \<Rightarrow> True | Inl stop \<Rightarrow> False"
    by code_simp
  then obtain st' where run: "output_definitions example_host payload_only start_state
      [api_fetched, db_fetched] = Inr st'"
    by (auto split: sum.splits)
  from inst run have "\<exists>st1 json. output_definitions example_host payload_only start_state ([] @ [api_fetched]) = Inr st1
                    \<and> json_Marshal example_host (secrets api_fetched) = Inr json
                    \<and> files st1 (SecretPayloadPath payload_only) = Some json
                    \<and> output_definitions example_host payload_only st1 [db_fetched] = Inr st'"
    by blast
  then obtain st1 where first: "output_definitions example_host payload_only start_state [api_fetched] = Inr st1"
      "files st1 ''/out/all.json'' = Some ''{\"api\":\"abc123\"}''"
      "output_definitions example_host payload_only st1 [db_fetched] = Inr st'"
    unfolding pp j1 by auto
  from inst run have "\<exists>json. json_Marshal example_host (secrets (last [api_fetched, db_fetched])) = Inr json
                    \<and> files st' (SecretPayloadPath payload_only) = Some json"
    by blast
  then have final: "files st' ''/out/all.json'' = Some ''{\"user\":\"u1\",\"pass\":\"p1\"}''"
    unfolding pp using j2 by auto
  have "case SecretFetcher example_host example_store payload_only ?envs Map.empty of
          Inr st \<Rightarrow> map EnvKey (defs st) = [''VAULT_SECRET_API'', ''VAULT_SECRETS_DB'']
                    \<and> map secrets (defs st) = [secrets api_fetched, secrets db_fetched]
        | Inl stop \<Rightarrow> False"
    by code_simp
  then obtain st2 where whole: "SecretFetcher example_host example_store payload_only ?envs Map.empty = Inr st2"
      "map EnvKey (defs st2) = [''VAULT_SECRET_API'', ''VAULT_SECRETS_DB'']"
      "map secrets (defs st2) = [secrets api_fetched, secrets db_fetched]"
    by (auto split: sum.splits)
  from whole(3) have l: "defs st2 \<noteq> []" "secrets (last (defs st2)) = secrets db_fetched"
    by (auto simp: last_map[symmetric] simp del: last_map)
  from inst whole(1) l(1) have "\<exists>json. json_Marshal example_host (secrets (last (defs st2))) = Inr json
                    \<and> files st2 (SecretPayloadPath payload_only) = Some json"
    by blast
  then have "files st2 ''/out/all.json'' = Some ''{\"user\":\"u1\",\"pass\":\"p1\"}''"
    unfolding pp l(2) using j2 by auto
  with whole(1,2) have b: "\<exists>st'. SecretFetcher example_host example_store payload_only ?envs Map.empty = Inr st'
         \<and> map EnvKey (defs st') = [''VAULT_SECRET_API'', ''VAULT_SECRETS_DB'']
         \<and> files st' ''/out/all.json'' = Some ''{\"user\":\"u1\",\"pass\":\"p1\"}''"
    by (intro exI[of _ st2] conjI)
  from first have "\<exists>st1. output_definitions example_host payload_only start_state [api_fetched] = Inr st1
              \<and> files st1 ''/out/all.json'' = Some ''{\"api\":\"abc123\"}''
              \<and> output_definitions example_host payload_only st1 [db_fetched] = Inr st'"
    by (intro exI[of _ st1] conjI)
  with run final have a: "\<exists>st'. output_definitions example_host payload_only start_state [api_fetched, db_fetched] = Inr st'
       \<and> files st' ''/out/all.json'' = Some ''{\"user\":\"u1\",\"pass\":\"p1\"}''
       \<and> (\<exists>st1. output_definitions example_host payload_only start_state [api_fetched] = Inr st1
              \<and> files st1 ''/out/all.json'' = Some ''{\"api\":\"abc123\"}''
              \<and> output_definitions example_host payload_only st1 [db_fetched] = Inr st')"
    by (rule_tac x = st' in exI) (simp only: simp_thms)
  from a b show ?thesis by (rule conjI)
qed


section \<open>Batches: every request is read before the next definition\<close>

lemma request_paths_effect:
  "outstanding (request_paths ps st) = outstanding st @ ps
   \<and> trace (request_paths ps st) = trace st @ map Requested ps"
  by (induction ps arbitrary: st) (simp_all add: AsyncRequestKeyPath_def)

lemma requested_map_Requested: "requested (map Requested ps) = ps"
  by (induction ps) simp_all

lemma delivered_map_Requested: "delivered (map Requested ps) = []"
  by (induction ps) simp_all

lemma requested_filter: "requested (filter store_event tr) = requested tr"
  by (induction tr rule: requested.induct) auto

lemma ReadSecretResult_None: "ReadSecretResult h client st = None \<longleftrightarrow> outstanding st = []"
  by (cases "outstanding st") (auto simp: ReadSecretResult_def Let_def split: prod.splits)

lemma addSecrets_range_Inl: "addSecrets_range kn m kvs = Inl a \<Longrightarrow> \<exists>v. a = PanicTypeAssertion v"
proof (induction kvs arbitrary: m)
  case Nil
  then show ?case by simp
next
  case (Cons kv kvs)
  obtain k v where kv: "kv = (k, v)" by (cases kv)
  show ?case
  proof (cases v)
    case (IString s)
    from Cons.prems have "addSecrets_range kn (AList.update (friendly_key kn k) s m) kvs = Inl a"
      unfolding kv IString addSecrets_range_step .
    from Cons.IH[OF this] show ?thesis .
  qed (use Cons.prems kv in auto)
qed

lemma merge_result_not_Blocked: "merge_result sd r = Inl a \<Longrightarrow> a \<noteq> Blocked"
  by (auto simp: merge_result_def addSecrets_def Let_def
           split: option.splits sum.splits prod.splits dest: addSecrets_range_Inl)

lemma drain_results_balanced:
  "balanced st \<Longrightarrow> n \<le> length (outstanding st) \<Longrightarrow>
   (case drain_results h client n sd st of
      Inl (a, st') \<Rightarrow> a \<noteq> Blocked
    | Inr (sd', st') \<Rightarrow> balanced st' \<and> length (outstanding st') + n = length (outstanding st))"
proof (induction n arbitrary: sd st)
  case 0
  then show ?case by simp
next
  case (Suc n)
  from Suc.prems(2) have "outstanding st \<noteq> []" by auto
  then obtain r st1 where rd: "ReadSecretResult h client st = Some (r, st1)"
    by (cases "ReadSecretResult h client st") (auto simp: ReadSecretResult_None)
  from ReadSecretResult_Some[OF rd]
  have tr: "trace st1 = trace st @ [Delivered (KeyPath r)]"
    and ms: "mset (outstanding st) = add_mset (KeyPath r) (mset (outstanding st1))"
    by simp_all
  from arg_cong[OF ms, of size] have len: "length (outstanding st) = Suc (length (outstanding st1))"
    by simp
  from Suc.prems(1) tr ms have b1: "balanced st1"
    by (simp add: balanced_def requested_append delivered_append)
  from Suc.prems(2) len have n: "n \<le> length (outstanding st1)" by simp
  show ?case
  proof (cases "merge_result sd r")
    case (Inl a)
    with rd merge_result_not_Blocked[OF Inl] show ?thesis by simp
  next
    case (Inr sd1)
    with rd Suc.IH[OF b1 n, of sd1] len show ?thesis
      by (auto split: sum.splits)
  qed
qed

lemma expand_balanced:
  "balanced st \<Longrightarrow>
   (case expand client sd st of
      Inl (a, st') \<Rightarrow> a \<noteq> Blocked
    | Inr (sd', st') \<Rightarrow> balanced st' \<and> outstanding st' = outstanding st)"
  using Walk_no_request[of client sd] Walk_events[of client sd]
  by (auto simp: expand_def balanced_def requested_append delivered_append
           split: prod.splits sum.splits)

lemma SecretFetcher_env_balanced:
  assumes "balanced st" and "outstanding st = []"
  shows "(case SecretFetcher_env h client config envs st env of
      Inl (a, st') \<Rightarrow> a \<noteq> Blocked
    | Inr st' \<Rightarrow> balanced st' \<and> outstanding st' = [])"
proof (cases "define_secret envs env")
  case None
  with assms show ?thesis by (simp add: SecretFetcher_env_def)
next
  case (Some sd0)
  define sd where "sd = resolve_destination envs sd0"
  show ?thesis
  proof (cases "no_output_method config sd")
    case True
    with Some assms show ?thesis
      by (simp add: SecretFetcher_env_def sd_def balanced_def requested_append delivered_append)
  next
    case False
    show ?thesis
    proof (cases "expand client sd st")
      case (Inl stop)
      with expand_balanced[OF assms(1), of client sd] Some False show ?thesis
        by (simp add: SecretFetcher_env_def sd_def)
    next
      case (Inr res)
      obtain sd1 st1 where res: "res = (sd1, st1)" by (cases res)
      from expand_balanced[OF assms(1), of client sd] Inr res assms(2)
      have b1: "balanced st1" and o1: "outstanding st1 = []" by simp_all
      let ?st2 = "request_paths (paths sd1) st1"
      from request_paths_effect[of "paths sd1" st1] o1
      have o2: "outstanding ?st2 = paths sd1" and t2: "trace ?st2 = trace st1 @ map Requested (paths sd1)"
        by simp_all
      from b1 o1 o2 t2 have b2: "balanced ?st2"
        by (simp add: balanced_def requested_append delivered_append requested_map_Requested
              delivered_map_Requested)
      from drain_results_balanced[OF b2, of "length (paths sd1)" h client sd1] o2
      show ?thesis using Some False Inr res
        by (auto simp: SecretFetcher_env_def sd_def balanced_def split: sum.splits)
    qed
  qed
qed

lemma SecretFetcher_envs_balanced:
  "balanced st \<Longrightarrow> outstanding st = [] \<Longrightarrow>
   (case SecretFetcher_envs h client config envs st es of
      Inl (a, st') \<Rightarrow> a \<noteq> Blocked
    | Inr st' \<Rightarrow> balanced st' \<and> outstanding st' = [])"
proof (induction es arbitrary: st)
  case Nil
  then show ?case by simp
next
  case (Cons e es)
  show ?case
  proof (cases "SecretFetcher_env h client config envs st e")
    case (Inl stop)
    with SecretFetcher_env_balanced[OF Cons.prems, of h client config envs e] show ?thesis by simp
  next
    case (Inr st1)
    with SecretFetcher_env_balanced[OF Cons.prems, of h client config envs e]
    have "balanced st1" "outstanding st1 = []" by simp_all
    from Cons.IH[OF this] Inr show ?thesis by simp
  qed
qed

lemma output_definition_abort:
  "output_definition h config st sd = Inl (a, st') \<Longrightarrow> \<exists>err. a = FatalPayload err"
  by (auto simp: output_definition_def Let_def split: if_splits sum.splits)

lemma output_definitions_abort:
  "output_definitions h config st sds = Inl (a, st') \<Longrightarrow> \<exists>err. a = FatalPayload err"
proof (induction sds arbitrary: st)
  case Nil
  then show ?case by simp
next
  case (Cons sd sds)
  then show ?case
    by (cases "output_definition h config st sd") (auto dest: output_definition_abort)
qed

text \<open>
  The loop hands all the paths of a definition to the reader and then reads as many
  results: a run never waits for a result with no request outstanding, and a run that
  ends normally has read exactly the paths it requested, as multisets.
\<close>

lemma SecretFetcher_reads_what_it_requests:
  "(case SecretFetcher h client config envs fs of
      Inl (a, st) \<Rightarrow> a \<noteq> Blocked
    | Inr st \<Rightarrow> mset (delivered (trace st)) = mset (requested (trace st)))"
proof -
  let ?st0 = "\<lparr>defs = [], outstanding = [], trace = [Logged StartingSecretFetch], files = fs\<rparr>"
  have b0: "balanced ?st0" and o0: "outstanding ?st0 = []" by (simp_all add: balanced_def)
  show ?thesis
  proof (cases "SecretFetcher_envs h client config envs ?st0 envs")
    case (Inl stop)
    with SecretFetcher_envs_balanced[OF b0 o0, of h client config envs envs] show ?thesis
      by (simp add: SecretFetcher_def)
  next
    case (Inr st1)
    with SecretFetcher_envs_balanced[OF b0 o0, of h client config envs envs]
    have b1: "mset (requested (trace st1)) = mset (delivered (trace st1))"
      by (simp add: balanced_def)
    show ?thesis
    proof (cases "output_definitions h config st1 (defs st1)")
      case (Inl stop)
      obtain a st' where stop: "stop = (a, st')" by (cases stop)
      from output_definitions_abort[OF Inl[unfolded stop]] Inr Inl stop show ?thesis
        by (auto simp: SecretFetcher_def)
    next
      case out: (Inr st')
      from output_definitions_store(1)[OF out]
      have "requested (trace st') = requested (trace st1)"
        and "delivered (trace st') = delivered (trace st1)"
        by (metis requested_filter, metis delivered_filter)
      with b1 Inr out show ?thesis by (simp add: SecretFetcher_def)
    qed
  qed
qed


section \<open>The fetch engine keeps every request\<close>

lemma sum_list_update_add:
  fixes f :: "'a \<Rightarrow> 'b::comm_monoid_add"
  shows "i < length xs \<Longrightarrow> sum_list (map f (xs[i := y])) + f (xs ! i) = sum_list (map f xs) + f y"
proof (induction xs arbitrary: i)
  case Nil
  then show ?case by simp
next
  case (Cons x xs)
  show ?case
  proof (cases i)
    case 0
    then show ?thesis by (simp add: ac_simps)
  next
    case (Suc j)
    with Cons.prems have "j < length xs" by simp
    from Cons.IH[OF this] Suc show ?thesis by (simp add: ac_simps)
  qed
qed

lemma engine_step_accounted:
  assumes "engine_step client a e = Some e'"
  shows "accounted e' = mset (submitted [a]) + accounted e"
proof (cases a)
  case (Submit p)
  with assms show ?thesis by (auto simp: accounted_def in_flight_def produced_def)
next
  case (Receive i)
  with assms obtain p ps where i: "i < length (workers e)" and w: "workers e ! i = Waiting"
    and r: "requests e = p # ps" and e': "e' = e\<lparr>requests := ps, workers := (workers e)[i := Reading p]\<rparr>"
    by (auto split: if_splits list.splits)
  from sum_list_update_add[OF i, of holds "Reading p"] w
  have "in_flight e' = in_flight e + {#p#}" by (simp add: in_flight_def e')
  then show ?thesis by (simp add: accounted_def produced_def e' r Receive)
next
  case (Perform i)
  with assms obtain p where i: "i < length (workers e)" and w: "workers e ! i = Reading p"
    and e': "e' = e\<lparr>workers := (workers e)[i := Sending (fetch client p)], reads := reads e @ [p]\<rparr>"
    by (auto split: if_splits worker.splits)
  from sum_list_update_add[OF i, of holds "Sending (fetch client p)"] w
  have "in_flight e' = in_flight e" by (simp add: in_flight_def e' fetch_def)
  then show ?thesis by (simp add: accounted_def produced_def e' Perform)
next
  case (Publish i)
  with assms obtain r where i: "i < length (workers e)" and w: "workers e ! i = Sending r"
    and e': "e' = e\<lparr>workers := (workers e)[i := Waiting], results := results e @ [r]\<rparr>"
    by (auto split: if_splits worker.splits)
  from sum_list_update_add[OF i, of holds Waiting] w
  have "in_flight e' + {#KeyPath r#} = in_flight e" by (simp add: in_flight_def e')
  then show ?thesis by (auto simp: accounted_def produced_def e' Publish)
next
  case Take
  with assms show ?thesis by (auto simp: accounted_def in_flight_def produced_def split: list.splits)
qed


lemma mset_submitted_Cons: "mset (submitted (a # as)) = mset (submitted [a]) + mset (submitted as)"
  by (cases a) simp_all

lemma engine_run_accounted:
  "engine_run client acts e = Some e' \<Longrightarrow> accounted e' = mset (submitted acts) + accounted e"
proof (induction acts arbitrary: e)
  case Nil
  then show ?case by simp
next
  case (Cons a acts)
  from Cons.prems obtain e1 where s: "engine_step client a e = Some e1"
    and r: "engine_run client acts e1 = Some e'"
    by (auto split: option.splits)
  from Cons.IH[OF r] engine_step_accounted[OF s] show ?case
    by (simp add: mset_submitted_Cons[of a acts])
qed

lemma engine_step_reads:
  assumes "engine_step client a e = Some e'" and "reads_match e"
  shows "reads_match e'"
proof (cases a)
  case (Submit p)
  with assms show ?thesis by (auto simp: reads_match_def being_sent_def produced_def)
next
  case (Receive i)
  with assms(1) obtain p ps where i: "i < length (workers e)" and w: "workers e ! i = Waiting"
    and e': "e' = e\<lparr>requests := ps, workers := (workers e)[i := Reading p]\<rparr>"
    by (auto split: if_splits list.splits)
  from sum_list_update_add[OF i, of holds_read "Reading p"] w
  have "being_sent e' = being_sent e" by (simp add: being_sent_def e')
  with assms(2) show ?thesis by (simp add: reads_match_def produced_def e')
next
  case (Perform i)
  with assms(1) obtain p where i: "i < length (workers e)" and w: "workers e ! i = Reading p"
    and e': "e' = e\<lparr>workers := (workers e)[i := Sending (fetch client p)], reads := reads e @ [p]\<rparr>"
    by (auto split: if_splits worker.splits)
  from sum_list_update_add[OF i, of holds_read "Sending (fetch client p)"] w
  have "being_sent e' = being_sent e + {#p#}" by (simp add: being_sent_def e' fetch_def)
  with assms(2) show ?thesis by (simp add: reads_match_def produced_def e')
next
  case (Publish i)
  with assms(1) obtain r where i: "i < length (workers e)" and w: "workers e ! i = Sending r"
    and e': "e' = e\<lparr>workers := (workers e)[i := Waiting], results := results e @ [r]\<rparr>"
    by (auto split: if_splits worker.splits)
  from sum_list_update_add[OF i, of holds_read Waiting] w
  have "being_sent e' + {#KeyPath r#} = being_sent e" by (simp add: being_sent_def e')
  with assms(2) show ?thesis by (auto simp: reads_match_def produced_def e')
next
  case Take
  with assms show ?thesis by (auto simp: reads_match_def being_sent_def produced_def split: list.splits)
qed

lemma fetch_KeyPath [simp]: "KeyPath (fetch client p) = p"
  by (simp add: fetch_def)

lemma engine_step_wrapped:
  assumes "engine_step client a e = Some e'" and "wrapped client e"
  shows "wrapped client e'"
proof (cases a)
  case (Submit p)
  with assms show ?thesis by (auto simp: wrapped_def produced_def)
next
  case (Receive i)
  with assms(1) obtain p ps where
    e': "e' = e\<lparr>requests := ps, workers := (workers e)[i := Reading p]\<rparr>"
    by (auto split: if_splits list.splits)
  have "set ((workers e)[i := Reading p]) \<subseteq> insert (Reading p) (set (workers e))"
    by (rule set_update_subset_insert)
  with assms(2) show ?thesis by (auto simp: wrapped_def produced_def e')
next
  case (Perform i)
  with assms(1) obtain p where
    e': "e' = e\<lparr>workers := (workers e)[i := Sending (fetch client p)], reads := reads e @ [p]\<rparr>"
    by (auto split: if_splits worker.splits)
  have "set ((workers e)[i := Sending (fetch client p)]) \<subseteq> insert (Sending (fetch client p)) (set (workers e))"
    by (rule set_update_subset_insert)
  with assms(2) show ?thesis by (auto simp: wrapped_def produced_def e')
next
  case (Publish i)
  with assms(1) obtain r where i: "i < length (workers e)" and w: "workers e ! i = Sending r"
    and e': "e' = e\<lparr>workers := (workers e)[i := Waiting], results := results e @ [r]\<rparr>"
    by (auto split: if_splits worker.splits)
  from i w have "Sending r \<in> set (workers e)" by (metis nth_mem)
  moreover have "set ((workers e)[i := Waiting]) \<subseteq> insert Waiting (set (workers e))"
    by (rule set_update_subset_insert)
  ultimately show ?thesis using assms(2) by (auto simp: wrapped_def produced_def e')
next
  case Take
  with assms show ?thesis by (auto simp: wrapped_def produced_def split: list.splits)
qed

lemma engine_step_workers:
  "engine_step client a e = Some e' \<Longrightarrow> length (workers e') = length (workers e)"
  by (cases a) (auto split: if_splits list.splits worker.splits)

lemma engine_run_invariants:
  "engine_run client acts e = Some e' \<Longrightarrow>
   length (workers e') = length (workers e)
   \<and> (reads_match e \<longrightarrow> reads_match e') \<and> (wrapped client e \<longrightarrow> wrapped client e')"
proof (induction acts arbitrary: e)
  case Nil
  then show ?case by simp
next
  case (Cons a acts)
  from Cons.prems obtain e1 where s: "engine_step client a e = Some e1"
    and r: "engine_run client acts e1 = Some e'"
    by (auto split: option.splits)
  from Cons.IH[OF r] engine_step_workers[OF s] engine_step_reads[OF s] engine_step_wrapped[OF s]
  show ?case by auto
qed

lemma engine_step_work:
  assumes "engine_step client a e = Some e'" and "worker_action a"
  shows "work_left e = Suc (work_left e')"
proof (cases a)
  case (Receive i)
  with assms(1) obtain p ps where i: "i < length (workers e)" and w: "workers e ! i = Waiting"
    and r: "requests e = p # ps" and e': "e' = e\<lparr>requests := ps, workers := (workers e)[i := Reading p]\<rparr>"
    by (auto split: if_splits list.splits)
  from sum_list_update_add[OF i, of steps_left "Reading p"] w
  show ?thesis by (simp add: work_left_def e' r)
next
  case (Perform i)
  with assms(1) obtain p where i: "i < length (workers e)" and w: "workers e ! i = Reading p"
    and e': "e' = e\<lparr>workers := (workers e)[i := Sending (fetch client p)], reads := reads e @ [p]\<rparr>"
    by (auto split: if_splits worker.splits)
  from sum_list_update_add[OF i, of steps_left "Sending (fetch client p)"] w
  show ?thesis by (simp add: work_left_def e')
next
  case (Publish i)
  with assms(1) obtain r where i: "i < length (workers e)" and w: "workers e ! i = Sending r"
    and e': "e' = e\<lparr>workers := (workers e)[i := Waiting], results := results e @ [r]\<rparr>"
    by (auto split: if_splits worker.splits)
  from sum_list_update_add[OF i, of steps_left Waiting] w
  show ?thesis by (simp add: work_left_def e')
qed (use assms(2) in simp_all)

lemma engine_run_work:
  "engine_run client ws e = Some e' \<Longrightarrow> list_all worker_action ws \<Longrightarrow>
   length ws + work_left e' = work_left e"
proof (induction ws arbitrary: e)
  case Nil
  then show ?case by simp
next
  case (Cons a ws)
  from Cons.prems obtain e1 where s: "engine_step client a e = Some e1"
    and r: "engine_run client ws e1 = Some e'"
    by (auto split: option.splits)
  from Cons.prems(2) have a: "worker_action a" and ws: "list_all worker_action ws" by simp_all
  from Cons.IH[OF r ws] engine_step_work[OF s a] show ?case by simp
qed

lemma steps_left_le: "sum_list (map steps_left ws) \<le> 3 * size (sum_list (map holds ws))"
proof (induction ws)
  case Nil
  then show ?case by simp
next
  case (Cons w ws)
  then show ?case by (cases w) simp_all
qed

lemma work_left_le: "work_left e \<le> 3 * size (accounted e)"
  using steps_left_le[of "workers e"] by (simp add: work_left_def accounted_def in_flight_def)

lemma idle_nothing_held:
  assumes "idle e"
  shows "requests e = []" and "in_flight e = {#}" and "being_sent e = {#}" and "work_left e = 0"
proof -
  from assms have r: "requests e = []" and w: "list_all (\<lambda>w. w = Waiting) (workers e)"
    by (simp_all add: idle_def)
  have "list_all (\<lambda>w. w = Waiting) ws \<Longrightarrow>
     sum_list (map holds ws) = {#} \<and> sum_list (map holds_read ws) = {#} \<and> sum_list (map steps_left ws) = 0" for ws
    by (induction ws) auto
  from this[OF w] r show "requests e = []" and "in_flight e = {#}" and "being_sent e = {#}"
    and "work_left e = 0"
    by (simp_all add: in_flight_def being_sent_def work_left_def)
qed

lemma engine_progress:
  assumes "1 \<le> length (workers e)" and "\<not> idle e"
  shows "\<exists>a e'. worker_action a \<and> engine_step client a e = Some e'"
proof (cases "list_all (\<lambda>w. w = Waiting) (workers e)")
  case True
  with assms(2) obtain p ps where "requests e = p # ps"
    by (cases "requests e") (auto simp: idle_def)
  moreover from assms(1) have pos: "0 < length (workers e)" by (cases "workers e") simp_all
  moreover from True pos have "workers e ! 0 = Waiting"
    unfolding list_all_length by blast
  ultimately have "engine_step client (Receive 0) e
      = Some (e\<lparr>requests := ps, workers := (workers e)[0 := Reading p]\<rparr>)"
    by simp
  then show ?thesis by (metis worker_action.simps(1))
next
  case False
  then obtain i where i: "i < length (workers e)" and w: "workers e ! i \<noteq> Waiting"
    by (auto simp: list_all_length)
  show ?thesis
  proof (cases "workers e ! i")
    case Waiting
    with w show ?thesis by simp
  next
    case (Reading p)
    with i have "engine_step client (Perform i) e
        = Some (e\<lparr>workers := (workers e)[i := Sending (fetch client p)], reads := reads e @ [p]\<rparr>)"
      by simp
    then show ?thesis by (metis worker_action.simps(2))
  next
    case (Sending r)
    with i have "engine_step client (Publish i) e
        = Some (e\<lparr>workers := (workers e)[i := Waiting], results := results e @ [r]\<rparr>)"
      by simp
    then show ?thesis by (metis worker_action.simps(3))
  qed
qed

lemma engine_completes:
  "1 \<le> length (workers e) \<Longrightarrow>
   \<exists>ws e'. list_all worker_action ws \<and> engine_run client ws e = Some e' \<and> idle e'"
proof (induction "work_left e" arbitrary: e rule: less_induct)
  case less
  show ?case
  proof (cases "idle e")
    case True
    then have "list_all worker_action [] \<and> engine_run client [] e = Some e \<and> idle e" by simp
    then show ?thesis by blast
  next
    case False
    from engine_progress[OF less.prems False] obtain a e1
      where a: "worker_action a" and s: "engine_step client a e = Some e1" by blast
    from engine_step_work[OF s a] have "work_left e1 < work_left e" by simp
    moreover from engine_step_workers[OF s] less.prems have "1 \<le> length (workers e1)" by simp
    ultimately obtain ws e' where ws: "list_all worker_action ws"
      and r: "engine_run client ws e1 = Some e'" and i: "idle e'"
      using less.hyps by blast
    from a ws s r have "list_all worker_action (a # ws) \<and> engine_run client (a # ws) e = Some e'"
      by simp
    with i show ?thesis by blast
  qed
qed

lemma take_all:
  "engine_run client (replicate (length (results e)) Take) e
     = Some (e\<lparr>results := [], taken := taken e @ results e\<rparr>)"
proof (induction "results e" arbitrary: e)
  case Nil
  then show ?case by simp
next
  case (Cons r rs)
  from Cons(2)[symmetric] have s: "engine_step client Take e = Some (e\<lparr>results := rs, taken := taken e @ [r]\<rparr>)"
    by simp
  from Cons(1)[of "e\<lparr>results := rs, taken := taken e @ [r]\<rparr>"]
  show ?case using Cons(2)[symmetric] by simp
qed

lemma submitted_workers: "list_all worker_action ws \<Longrightarrow> submitted ws = []"
proof (induction ws)
  case Nil
  then show ?case by simp
next
  case (Cons a ws)
  then show ?case by (cases a) simp_all
qed

lemma open_engine_facts:
  "accounted (open_engine N) = {#}" "reads_match (open_engine N)" "wrapped client (open_engine N)"
  "length (workers (open_engine N)) = N"
proof -
  have "sum_list (map holds (replicate N Waiting)) = {#}"
    and "sum_list (map holds_read (replicate N Waiting)) = {#}"
    by (induction N) simp_all
  then show "accounted (open_engine N) = {#}" "reads_match (open_engine N)"
    "wrapped client (open_engine N)" "length (workers (open_engine N)) = N"
    by (simp_all add: accounted_def reads_match_def wrapped_def open_engine_def in_flight_def
          being_sent_def produced_def)
qed

text \<open>
  Claim C9, for the engine as the spec designs it. Take any schedule of submissions,
  worker steps and \<open>next\<close> calls on an engine opened with at least one worker. At every
  moment each submitted path is in exactly one place: requested, held by a worker, or in
  a produced result; the paths read are the ones whose result is being sent or was
  produced; and every result is the outcome of the read of its path. When the engine has
  nothing left to do, the paths of the results produced are, as a multiset, the paths
  submitted, there are as many results as submissions, every path was read as often as it
  was submitted, and \<open>next\<close> can be called once per result. Until then some worker can
  take a step; the workers can take at most three steps per submission, and some run of
  worker steps ends with nothing left to do.
\<close>

theorem fetch_engine_produces_every_request:
  assumes "1 \<le> N" and "engine_run client acts (open_engine N) = Some e"
  shows "mset (submitted acts) = mset (requests e) + in_flight e + mset (map KeyPath (produced e))
     \<and> mset (reads e) = being_sent e + mset (map KeyPath (produced e))
     \<and> (\<forall>r \<in> set (produced e). r = fetch client (KeyPath r))
     \<and> (idle e \<longrightarrow> mset (map KeyPath (produced e)) = mset (submitted acts)
                  \<and> length (produced e) = length (submitted acts)
                  \<and> mset (reads e) = mset (submitted acts)
                  \<and> (\<exists>e'. engine_run client (replicate (length (results e)) Take) e = Some e'
                        \<and> taken e' = produced e))
     \<and> (\<not> idle e \<longrightarrow> (\<exists>a e'. worker_action a \<and> engine_step client a e = Some e'))
     \<and> (\<forall>ws e'. list_all worker_action ws \<and> engine_run client ws e = Some e'
           \<longrightarrow> length ws \<le> 3 * length (submitted acts))
     \<and> (\<exists>ws e'. list_all worker_action ws \<and> engine_run client ws e = Some e' \<and> idle e'
           \<and> mset (map KeyPath (produced e')) = mset (submitted acts)
           \<and> length (produced e') = length (submitted acts))"
proof -
  from engine_run_accounted[OF assms(2)] have acc: "accounted e = mset (submitted acts)"
    by (simp add: open_engine_facts)
  from engine_run_invariants[OF assms(2)]
  have len: "length (workers e) = N" and rm: "reads_match e" and wr: "wrapped client e"
    by (simp_all add: open_engine_facts)
  have settled: "mset (map KeyPath (produced e')) = mset (submitted acts)
              \<and> length (produced e') = length (submitted acts)"
    if "idle e'" and "accounted e' = mset (submitted acts)" for e'
  proof -
    from that idle_nothing_held[OF that(1)]
    have m: "mset (map KeyPath (produced e')) = mset (submitted acts)"
      by (simp add: accounted_def)
    from arg_cong[OF m, of size] have "length (produced e') = length (submitted acts)" by simp
    with m show ?thesis by (rule conjI)
  qed
  have c1: "mset (submitted acts) = mset (requests e) + in_flight e + mset (map KeyPath (produced e))"
    using acc by (simp add: accounted_def)
  have c2: "mset (reads e) = being_sent e + mset (map KeyPath (produced e))"
    using rm by (simp add: reads_match_def)
  have c3: "\<forall>r \<in> set (produced e). r = fetch client (KeyPath r)"
    using wr by (simp add: wrapped_def)
  have c4: "mset (map KeyPath (produced e)) = mset (submitted acts)
                  \<and> length (produced e) = length (submitted acts)
                  \<and> mset (reads e) = mset (submitted acts)
                  \<and> (\<exists>e'. engine_run client (replicate (length (results e)) Take) e = Some e'
                        \<and> taken e' = produced e)" if i: "idle e"
  proof -
    from settled[OF i acc] c2 idle_nothing_held(3)[OF i]
    have "mset (reads e) = mset (submitted acts)" by simp
    moreover have "\<exists>e'. engine_run client (replicate (length (results e)) Take) e = Some e'
                        \<and> taken e' = produced e"
      using take_all[of client e] by (simp add: produced_def)
    ultimately show ?thesis using settled[OF i acc] by simp
  qed
  have c5: "\<exists>a e'. worker_action a \<and> engine_step client a e = Some e'" if "\<not> idle e"
    using engine_progress[OF _ that] assms(1) len by simp
  have bound: "work_left e \<le> 3 * length (submitted acts)"
    using work_left_le[of e] acc by simp
  have c6: "length ws \<le> 3 * length (submitted acts)"
    if "list_all worker_action ws \<and> engine_run client ws e = Some e'" for ws e'
    using engine_run_work[of client ws e e'] that bound by simp
  have c7: "\<exists>ws e'. list_all worker_action ws \<and> engine_run client ws e = Some e' \<and> idle e'
           \<and> mset (map KeyPath (produced e')) = mset (submitted acts)
           \<and> length (produced e') = length (submitted acts)"
  proof -
    from engine_completes[of e client] assms(1) len obtain ws e'
      where ws: "list_all worker_action ws" and r: "engine_run client ws e = Some e'" and i: "idle e'"
      by auto
    from engine_run_accounted[OF r] submitted_workers[OF ws] acc
    have "accounted e' = mset (submitted acts)" by simp
    from settled[OF i this] ws r i show ?thesis by blast
  qed
  from c1 c2 c3 c4 c5 c6 c7 show ?thesis by blast
qed

theorem fetch_engine_produces_every_request_witness:
  "(1::nat) \<le> 2
   \<and> engine_run example_store two_requests (open_engine 2) = Some drained_engine
   \<and> idle drained_engine
   \<and> submitted two_requests = [''secret/app/api'', ''secret/app/db/user'']
   \<and> map KeyPath (produced drained_engine) = [''secret/app/db/user'', ''secret/app/api'']
   \<and> mset (map KeyPath (produced drained_engine)) = mset (submitted two_requests)
   \<and> length (produced drained_engine) = length (submitted two_requests)
   \<and> mset (reads drained_engine) = mset (submitted two_requests)
   \<and> engine_run example_store (take 5 two_requests) (open_engine 2) = Some busy_engine
   \<and> \<not> idle busy_engine
   \<and> (\<exists>a e'. worker_action a \<and> engine_step example_store a busy_engine = Some e')
   \<and> (\<exists>ws e'. list_all worker_action ws \<and> engine_run example_store ws busy_engine = Some e' \<and> idle e'
         \<and> length (produced e') = length (submitted (take 5 two_requests)))"
proof -
  have h1: "(1::nat) \<le> 2" by simp
  have h2: "engine_run example_store two_requests (open_engine 2) = Some drained_engine" by code_simp
  have h3: "engine_run example_store (take 5 two_requests) (open_engine 2) = Some busy_engine"
    by code_simp
  have i: "idle drained_engine" and b: "\<not> idle busy_engine" by code_simp+
  have s: "submitted two_requests = [''secret/app/api'', ''secret/app/db/user'']"
    and p: "map KeyPath (produced drained_engine) = [''secret/app/db/user'', ''secret/app/api'']"
    by code_simp+
  note full = fetch_engine_produces_every_request[OF h1 h2]
  note half = fetch_engine_produces_every_request[OF h1 h3]
  from full i have a: "mset (map KeyPath (produced drained_engine)) = mset (submitted two_requests)"
      "length (produced drained_engine) = length (submitted two_requests)"
      "mset (reads drained_engine) = mset (submitted two_requests)"
    by blast+
  from half b have c: "\<exists>a e'. worker_action a \<and> engine_step example_store a busy_engine = Some e'"
    by blast
  from half have d: "\<exists>ws e'. list_all worker_action ws \<and> engine_run example_store ws busy_engine = Some e' \<and> idle e'
         \<and> length (produced e') = length (submitted (take 5 two_requests))"
    by blast
  from h1 h2 i s p a h3 b c d show ?thesis by (intro conjI)
qed


end
